theory Spec2Isabelle
  imports Complex_Main "HOL-Library.Word"
begin

section \<open>Numbers, vectors and rays\<close>

text \<open>
  The ray tracer computes with C++ \<^verbatim>\<open>double\<close>. A double that the program keeps finite is
  modelled as a \<^typ>\<open>real\<close>: rounding, overflow and NaN are not represented, and every place
  where the program divides by a value that can be zero is written out in the model. The bounds of
  a hit interval are the one place where the program stores an infinity (\<^verbatim>\<open>inf\<close> of utils.h),
  so a bound is an extended double.
\<close>

datatype xdouble = MInf | Fin real | PInf

instantiation xdouble :: linorder
begin

definition less_eq_xdouble :: "xdouble \<Rightarrow> xdouble \<Rightarrow> bool" where
  "less_eq_xdouble a b =
     (case a of
        MInf \<Rightarrow> True
      | Fin u \<Rightarrow> (case b of MInf \<Rightarrow> False | Fin v \<Rightarrow> u \<le> v | PInf \<Rightarrow> True)
      | PInf \<Rightarrow> (case b of PInf \<Rightarrow> True | _ \<Rightarrow> False))"

definition less_xdouble :: "xdouble \<Rightarrow> xdouble \<Rightarrow> bool" where
  "less_xdouble a b = (a \<le> b \<and> \<not> b \<le> (a :: xdouble))"

instance
  by standard (auto simp: less_eq_xdouble_def less_xdouble_def split: xdouble.splits)

end

text \<open>utils.h: \<^verbatim>\<open>const double inf = numeric_limits<double>::infinity()\<close>.\<close>

definition inf_d :: xdouble where
  "inf_d = PInf"

text \<open>
  Modelled from the spec: vec3.h and color.h are not among the sources. The spec describes
  Vector3 as a 3-component real vector with arithmetic, dot product, length and normalisation,
  and the sources use \<^verbatim>\<open>Point3\<close> and \<^verbatim>\<open>Color\<close> as other names of \<^verbatim>\<open>Vec3\<close>. The selectors
  stand for the accessors \<^verbatim>\<open>x()\<close>, \<^verbatim>\<open>y()\<close>, \<^verbatim>\<open>z()\<close>. The operators and the functions
  \<open>dot\<close>, \<open>length_squared\<close>, \<open>length_v\<close> (the member \<^verbatim>\<open>length()\<close>) and \<open>unit_vector\<close> that
  follow are the ones the sources call; the product of two vectors is taken component by
  component, as \<^verbatim>\<open>ray_color\<close> uses it on colours, and a default-constructed vector is taken to
  be the zero vector.
\<close>

datatype Vec3 = Vec3 (x_v: real) (y_v: real) (z_v: real)

type_synonym Point3 = Vec3
type_synonym Color = Vec3

instantiation Vec3 :: "{zero, plus, minus, uminus, times}"
begin

definition zero_Vec3 :: Vec3 where
  "zero_Vec3 = Vec3 0 0 0"

definition plus_Vec3 :: "Vec3 \<Rightarrow> Vec3 \<Rightarrow> Vec3" where
  "plus_Vec3 u v = Vec3 (x_v u + x_v v) (y_v u + y_v v) (z_v u + z_v v)"

definition minus_Vec3 :: "Vec3 \<Rightarrow> Vec3 \<Rightarrow> Vec3" where
  "minus_Vec3 u v = Vec3 (x_v u - x_v v) (y_v u - y_v v) (z_v u - z_v v)"

definition uminus_Vec3 :: "Vec3 \<Rightarrow> Vec3" where
  "uminus_Vec3 u = Vec3 (- x_v u) (- y_v u) (- z_v u)"

definition times_Vec3 :: "Vec3 \<Rightarrow> Vec3 \<Rightarrow> Vec3" where
  "times_Vec3 u v = Vec3 (x_v u * x_v v) (y_v u * y_v v) (z_v u * z_v v)"

instance ..

end

text \<open>\<^verbatim>\<open>operator*(double, Vec3)\<close> and \<^verbatim>\<open>operator/(Vec3, double)\<close>.\<close>

definition smult :: "real \<Rightarrow> Vec3 \<Rightarrow> Vec3" where
  "smult k v = Vec3 (k * x_v v) (k * y_v v) (k * z_v v)"

text \<open>
  For \<open>k = 0\<close> the program's quotient has non-finite components, which a \<^typ>\<open>real\<close> does not
  represent; HOL's \<open>x / 0 = 0\<close> gives the zero vector there. Statements about a quotient are
  made for a non-zero divisor only.
\<close>

definition sdiv :: "Vec3 \<Rightarrow> real \<Rightarrow> Vec3" where
  "sdiv v k = Vec3 (x_v v / k) (y_v v / k) (z_v v / k)"

definition dot :: "Vec3 \<Rightarrow> Vec3 \<Rightarrow> real" where
  "dot u v = x_v u * x_v v + y_v u * y_v v + z_v u * z_v v"

definition length_squared :: "Vec3 \<Rightarrow> real" where
  "length_squared v = x_v v * x_v v + y_v v * y_v v + z_v v * z_v v"

definition length_v :: "Vec3 \<Rightarrow> real" where
  "length_v v = sqrt (length_squared v)"

definition unit_vector :: "Vec3 \<Rightarrow> Vec3" where
  "unit_vector v = sdiv v (length_v v)"

text \<open>ray.h (\<^verbatim>\<open>Ray\<close>): origin, direction and \<^verbatim>\<open>Ray::at\<close>, the point at a parameter.\<close>

record Ray =
  orig :: Point3
  dir :: Vec3

definition Ray_at :: "Ray \<Rightarrow> real \<Rightarrow> Point3" where
  "Ray_at r k = orig r + smult k (dir r)"

text \<open>\<^verbatim>\<open>Ray() {}\<close>: both members default-constructed (taken to be the zero vector).\<close>

definition Ray_default :: Ray where
  "Ray_default = \<lparr>orig = 0, dir = 0\<rparr>"

section \<open>Interval\<close>

text \<open>
  interval.h. The class holds two doubles; the record is polymorphic so that the same
  \<open>surrounds\<close> and \<open>clamp\<close> serve the hit intervals (bounds in \<^typ>\<open>xdouble\<close>) and the finite
  intensity interval of \<^verbatim>\<open>setPixel\<close> (bounds in \<^typ>\<open>real\<close>).
\<close>

record 'a Interval =
  min_b :: 'a
  max_b :: 'a

definition Interval :: "'a \<Rightarrow> 'a \<Rightarrow> 'a Interval" where
  "Interval lo hi = \<lparr>min_b = lo, max_b = hi\<rparr>"

definition contains :: "('a :: linorder) Interval \<Rightarrow> 'a \<Rightarrow> bool" where
  "contains iv v = (min_b iv \<le> v \<and> v \<le> max_b iv)"

definition surrounds :: "('a :: linorder) Interval \<Rightarrow> 'a \<Rightarrow> bool" where
  "surrounds iv v = (min_b iv < v \<and> v < max_b iv)"

text \<open>\<^verbatim>\<open>std::max(min, std::min(x, max))\<close>.\<close>

definition clamp :: "('a :: linorder) Interval \<Rightarrow> 'a \<Rightarrow> 'a" where
  "clamp iv v = max (min_b iv) (min v (max_b iv))"

section \<open>Materials and hit records\<close>

text \<open>
  material.h declares the base class \<^verbatim>\<open>Material\<close>, which is not abstract (its \<^verbatim>\<open>scatter\<close> has a
  body), and the three classes derived from it. A \<^verbatim>\<open>shared_ptr<Material>\<close> is modelled by the
  material it points to, the null pointer by \<open>None\<close>.
\<close>

datatype material =
    Material
  | Constant Color
  | ShowNormals Color
  | Lambertian Color

record Hit_record =
  p_rec :: Point3
  normal :: Vec3
  t_rec :: real
  frontFacing :: bool
  mat_ptr :: "material option"

text \<open>
  \<^verbatim>\<open>Hit_record tmp;\<close>: the vectors and the pointer are default-constructed, \<^verbatim>\<open>t\<close> and
  \<^verbatim>\<open>frontFacing\<close> are left indeterminate by the program; the model fixes them to \<open>0\<close> and
  \<open>False\<close>. No proof below uses these two values.
\<close>

definition Hit_record_default :: Hit_record where
  "Hit_record_default =
     \<lparr>p_rec = 0, normal = 0, t_rec = 0, frontFacing = False, mat_ptr = None\<rparr>"

text \<open>hittable.h, \<^verbatim>\<open>Hit_record::set_face_normal\<close>.\<close>

definition set_face_normal :: "Hit_record \<Rightarrow> Ray \<Rightarrow> Vec3 \<Rightarrow> Hit_record" where
  "set_face_normal rec r outward_normal =
     (let ff = (dot (dir r) outward_normal < 0)
      in rec\<lparr>frontFacing := ff,
             normal := (if ff then outward_normal else - outward_normal)\<rparr>)"

section \<open>Hittables: Sphere and Hittable_list\<close>

text \<open>
  The two classes derived from \<^verbatim>\<open>Hittable\<close>. A \<^verbatim>\<open>Hittable_list\<close> holds pointers to hittables of
  either class, in insertion order.
\<close>

datatype hittable =
    Sphere Point3 real material
  | Hittable_list "hittable list"

text \<open>The constructor of \<^verbatim>\<open>Sphere\<close> stores \<^verbatim>\<open>std::fmax(0, radius)\<close>.\<close>

definition Sphere_new :: "Point3 \<Rightarrow> real \<Rightarrow> material \<Rightarrow> hittable" where
  "Sphere_new center radius mat = Sphere center (max 0 radius) mat"

text \<open>\<^verbatim>\<open>Hittable_list::add\<close> and \<^verbatim>\<open>Hittable_list::clear\<close> on the vector of members.\<close>

definition add :: "hittable list \<Rightarrow> hittable \<Rightarrow> hittable list" where
  "add objects object = objects @ [object]"

definition clear :: "hittable list \<Rightarrow> hittable list" where
  "clear objects = []"

text \<open>
  The four assignments at the end of \<^verbatim>\<open>Sphere::hit\<close>: \<^verbatim>\<open>rec.t\<close>, \<^verbatim>\<open>rec.p\<close>, \<^verbatim>\<open>rec.normal\<close> and
  \<^verbatim>\<open>rec.mat_ptr\<close>. \<^verbatim>\<open>frontFacing\<close> is not assigned.
\<close>

definition Sphere_accept ::
  "Point3 \<Rightarrow> real \<Rightarrow> material \<Rightarrow> Ray \<Rightarrow> real \<Rightarrow> Hit_record \<Rightarrow> Hit_record" where
  "Sphere_accept center radius mat r rt rec =
     rec\<lparr>t_rec := rt,
         p_rec := Ray_at r rt,
         normal := sdiv (Ray_at r rt - center) radius,
         mat_ptr := Some mat\<rparr>"

text \<open>
  \<^verbatim>\<open>Sphere::hit\<close>. The result is the returned flag and the record after the call. When \<open>a = 0\<close>
  the direction is the zero vector, so \<open>h = 0\<close> and the discriminant is \<open>0\<close>; both roots are then
  the quotient \<open>0 / 0\<close>, a NaN, which no interval surrounds: the program returns false, and the
  model says so in a branch of its own.
\<close>

definition Sphere_hit ::
  "Point3 \<Rightarrow> real \<Rightarrow> material \<Rightarrow> Ray \<Rightarrow> xdouble Interval \<Rightarrow> Hit_record
     \<Rightarrow> bool \<times> Hit_record" where
  "Sphere_hit center radius mat r ray_t rec =
     (let oc = center - orig r;
          a = length_squared (dir r);
          h = dot (dir r) oc;
          c = length_squared oc - radius * radius;
          discriminant = h * h - a * c
      in if discriminant < 0 then (False, rec)
         else if a = 0 then (False, rec)
         else
           let sqrtd = sqrt discriminant;
               rt = (h - sqrtd) / a
           in if \<not> surrounds ray_t (Fin rt) then
                (let rt = (h + sqrtd) / a
                 in if \<not> surrounds ray_t (Fin rt) then (False, rec)
                    else (True, Sphere_accept center radius mat r rt rec))
              else (True, Sphere_accept center radius mat r rt rec))"

text \<open>
  \<^verbatim>\<open>Hittable::hit\<close> by dynamic dispatch, and the loop of \<^verbatim>\<open>Hittable_list::hit\<close>. The loop state is
  \<open>(tmp, hitSomething, closestSoFar, rec)\<close>; \<open>tmin\<close> is \<^verbatim>\<open>ray_t.min\<close>.
\<close>

fun hit :: "hittable \<Rightarrow> Ray \<Rightarrow> xdouble Interval \<Rightarrow> Hit_record \<Rightarrow> bool \<times> Hit_record"
  and hit_objects ::
    "hittable list \<Rightarrow> Ray \<Rightarrow> xdouble \<Rightarrow> Hit_record \<times> bool \<times> xdouble \<times> Hit_record
       \<Rightarrow> Hit_record \<times> bool \<times> xdouble \<times> Hit_record" where
  "hit (Sphere center radius mat) r ray_t rec = Sphere_hit center radius mat r ray_t rec"
| "hit (Hittable_list objects) r ray_t rec =
     (case hit_objects objects r (min_b ray_t) (Hit_record_default, False, max_b ray_t, rec) of
        (tmp, hitSomething, closestSoFar, rec') \<Rightarrow> (hitSomething, rec'))"
| "hit_objects [] r tmin st = st"
| "hit_objects (obj # objs) r tmin (tmp, hitSomething, closestSoFar, rec) =
     (case hit obj r (Interval tmin closestSoFar) tmp of
        (True, tmp') \<Rightarrow> hit_objects objs r tmin (tmp', True, Fin (t_rec tmp'), tmp')
      | (False, tmp') \<Rightarrow> hit_objects objs r tmin (tmp', hitSomething, closestSoFar, rec))"

section \<open>Sphere::hit as the specification words it\<close>

text \<open>
  The quadratic of the specification, written from its sentences and not from the code:
  \<open>a = d \<sqdot> d\<close>, \<open>h = d \<sqdot> (center - origin)\<close>, \<open>c = |center - origin|\<^sup>2 - r\<^sup>2\<close>, the discriminant
  \<open>h\<^sup>2 - a c\<close> and the two roots \<open>(h - \<surd>disc) / a\<close> and \<open>(h + \<surd>disc) / a\<close>.
\<close>

definition spec_a :: "Ray \<Rightarrow> real" where
  "spec_a r = dot (dir r) (dir r)"

definition spec_h :: "Point3 \<Rightarrow> Ray \<Rightarrow> real" where
  "spec_h center r = dot (dir r) (center - orig r)"

definition spec_c :: "Point3 \<Rightarrow> real \<Rightarrow> Ray \<Rightarrow> real" where
  "spec_c center radius r = (length_v (center - orig r))\<^sup>2 - radius\<^sup>2"

definition spec_discriminant :: "Point3 \<Rightarrow> real \<Rightarrow> Ray \<Rightarrow> real" where
  "spec_discriminant center radius r =
     (spec_h center r)\<^sup>2 - spec_a r * spec_c center radius r"

definition spec_smaller_root :: "Point3 \<Rightarrow> real \<Rightarrow> Ray \<Rightarrow> real" where
  "spec_smaller_root center radius r =
     (spec_h center r - sqrt (spec_discriminant center radius r)) / spec_a r"

definition spec_larger_root :: "Point3 \<Rightarrow> real \<Rightarrow> Ray \<Rightarrow> real" where
  "spec_larger_root center radius r =
     (spec_h center r + sqrt (spec_discriminant center radius r)) / spec_a r"

section \<open>Material::scatter\<close>

text \<open>
  Modelled from the spec: vec3.h is not among the sources, and with it the two members that
  \<^verbatim>\<open>Lambertian::scatter\<close> calls, \<^verbatim>\<open>Vec3::random_in_hemisphere\<close> (a random direction of the
  hemisphere around a normal) and \<^verbatim>\<open>Vec3::near_zero\<close> (the test for a numerically degenerate
  direction). They are parameters of the model, and so is what \<^verbatim>\<open>RndGen::random_double\<close>
  returns, which the standard library's \<^verbatim>\<open>std::mt19937\<close> and
  \<^verbatim>\<open>std::uniform_real_distribution\<close> compute. The random ones read and advance the state of
  the generator of the calling thread, of an arbitrary type \<open>'g\<close>.
\<close>

record 'g externals =
  random_double :: "'g \<Rightarrow> real \<times> 'g"
  random_in_hemisphere :: "Vec3 \<Rightarrow> 'g \<Rightarrow> Vec3 \<times> 'g"
  near_zero :: "Vec3 \<Rightarrow> bool"

text \<open>
  \<^verbatim>\<open>scatter(r_in, rec, attenuation, scattered)\<close> of the four classes. The two reference
  parameters are passed in and returned, after the returned flag; the base class assigns
  neither.
\<close>

fun scatter ::
  "'g externals \<Rightarrow> material \<Rightarrow> Ray \<Rightarrow> Hit_record \<Rightarrow> Color \<Rightarrow> Ray \<Rightarrow> 'g
     \<Rightarrow> bool \<times> Color \<times> Ray \<times> 'g" where
  "scatter L Material r_in rec attenuation scattered g = (False, attenuation, scattered, g)"
| "scatter L (Constant color) r_in rec attenuation scattered g =
     (False, color, \<lparr>orig = p_rec rec, dir = Vec3 0 0 0\<rparr>, g)"
| "scatter L (ShowNormals albedo) r_in rec attenuation scattered g =
     (False, smult 0.5 (normal rec + Vec3 1 1 1), \<lparr>orig = p_rec rec, dir = Vec3 0 0 0\<rparr>, g)"
| "scatter L (Lambertian albedo) r_in rec attenuation scattered g =
     (case random_in_hemisphere L (normal rec) g of
        (v, g') \<Rightarrow>
          (let scatter_direction = normal rec + v;
               scatter_direction =
                 (if near_zero L scatter_direction then normal rec else scatter_direction)
           in (True, albedo, \<lparr>orig = p_rec rec, dir = scatter_direction\<rparr>, g')))"

section \<open>Camera\<close>

text \<open>
  The members of \<^verbatim>\<open>Camera\<close> that the functions below read or write. \<^verbatim>\<open>n_rays\<close> is the atomic
  counter, modelled by its value.
\<close>

record Camera =
  image_width :: int
  image_height :: int
  image_channels :: int
  n_rays :: int
  samples_per_pixel :: int
  max_depth :: int
  camera_center :: Point3
  pixel00_loc :: Point3
  pixel_delta_u :: Vec3
  pixel_delta_v :: Vec3

text \<open>The last three lines of \<^verbatim>\<open>Camera::ray_color\<close>: the gradient returned when nothing is hit.\<close>

definition background :: "Ray \<Rightarrow> Color" where
  "background r =
     (let unit_direction = unit_vector (dir r);
          t = 0.5 * (y_v unit_direction + 1.0)
      in smult (1.0 - t) (Vec3 1.0 1.0 1.0) + smult t (Vec3 0.5 0.7 1.0))"

text \<open>
  \<^verbatim>\<open>Camera::ray_color\<close>. The state threaded through the recursion is the value of \<^verbatim>\<open>n_rays\<close> and
  the generator. The result is \<open>None\<close> where the program dereferences a null \<^verbatim>\<open>mat_ptr\<close>. The
  two \<^verbatim>\<open>dynamic_cast\<close> tests come first, as in the source; every other material goes through the
  \<^verbatim>\<open>if (rec.mat_ptr->scatter(...))\<close>, after which control falls to the gradient.
\<close>

function ray_color ::
  "'g externals \<Rightarrow> Ray \<Rightarrow> hittable \<Rightarrow> int \<Rightarrow> int \<times> 'g \<Rightarrow> (Color \<times> int \<times> 'g) option" where
  "ray_color L r world depth (n, g) =
     (if depth \<le> 0 then Some (Vec3 0 0 0, n, g)
      else
        (case hit world r (Interval (Fin 0.0001) inf_d) Hit_record_default of
           (True, rec) \<Rightarrow>
             (case mat_ptr rec of
                None \<Rightarrow> None
              | Some (Constant color) \<Rightarrow> Some (color, n + 1, g)
              | Some (ShowNormals albedo) \<Rightarrow>
                  (case scatter L (ShowNormals albedo) r rec 0 Ray_default g of
                     (b, attenuation, scattered, g') \<Rightarrow> Some (attenuation, n + 1, g'))
              | Some m \<Rightarrow>
                  (case scatter L m r rec 0 Ray_default g of
                     (b, attenuation, scattered, g') \<Rightarrow>
                       if b then
                         (if length_v (dir scattered) = 0 then Some (attenuation, n + 1, g')
                          else
                            (case ray_color L scattered world (depth - 1) (n + 1, g') of
                               None \<Rightarrow> None
                             | Some (c, st) \<Rightarrow> Some (attenuation * c, st)))
                       else Some (background r, n + 1, g')))
         | (False, rec) \<Rightarrow> Some (background r, n + 1, g)))"
  by pat_completeness auto
termination
  by (relation "measure (\<lambda>(L, r, world, depth, st). nat depth)") auto

section \<open>Camera::setPixel\<close>

type_synonym byte = "8 word"

text \<open>\<^verbatim>\<open>static_cast<int>\<close> of a double: truncation towards zero.\<close>

definition static_cast_int :: "real \<Rightarrow> int" where
  "static_cast_int v = (if 0 \<le> v then \<lfloor>v\<rfloor> else \<lceil>v\<rceil>)"

text \<open>\<^verbatim>\<open>static const Interval intensity(0.0, 0.999)\<close>.\<close>

definition intensity :: "real Interval" where
  "intensity = Interval 0.0 0.999"

text \<open>
  The right-hand side \<^verbatim>\<open>static_cast<int>(intensity.clamp(v) * 256)\<close> as an \<^verbatim>\<open>int\<close>, and the
  \<^verbatim>\<open>unsigned char\<close> stored, which is that integer modulo 256.
\<close>

definition channel_int :: "real \<Rightarrow> int" where
  "channel_int v = static_cast_int (clamp intensity v * 256)"

definition channel_byte :: "real \<Rightarrow> byte" where
  "channel_byte v = word_of_int (channel_int v)"

text \<open>
  A value that fits a 32-bit \<^verbatim>\<open>int\<close>, and \<^verbatim>\<open>image[i] = b\<close> on a \<^verbatim>\<open>vector<unsigned char>\<close>: the
  subscript is not checked by the program, so a write outside the vector is undefined behaviour,
  \<open>None\<close> in the model.
\<close>

definition int_ok :: "int \<Rightarrow> bool" where
  "int_ok v = (- (2 ^ 31) \<le> v \<and> v < 2 ^ 31)"

definition store :: "byte list \<Rightarrow> int \<Rightarrow> byte \<Rightarrow> byte list option" where
  "store img i b =
     (if 0 \<le> i \<and> i < int (length img) then Some (img[nat i := b]) else None)"

text \<open>
  \<^verbatim>\<open>Camera::setPixel\<close>. The index is computed in \<^verbatim>\<open>int\<close>; an overflow of that arithmetic is
  undefined behaviour as well.
\<close>

definition setPixel :: "Camera \<Rightarrow> byte list \<Rightarrow> int \<Rightarrow> int \<Rightarrow> Color \<Rightarrow> byte list option" where
  "setPixel cam img x y c =
     (let index = (y * image_width cam + x) * image_channels cam
      in if \<not> (int_ok (y * image_width cam) \<and> int_ok (y * image_width cam + x)
                \<and> int_ok index \<and> int_ok (index + 2))
         then None
         else
           (case store img (index + 0) (channel_byte (x_v c)) of
              None \<Rightarrow> None
            | Some img1 \<Rightarrow>
                (case store img1 (index + 1) (channel_byte (y_v c)) of
                   None \<Rightarrow> None
                 | Some img2 \<Rightarrow> store img2 (index + 2) (channel_byte (z_v c)))))"

text \<open>The indices that \<^verbatim>\<open>setPixel\<close> assigns for the pixel \<open>(x, y)\<close>.\<close>

definition pixel_indices :: "Camera \<Rightarrow> int \<Rightarrow> int \<Rightarrow> int set" where
  "pixel_indices cam x y =
     (let index = (y * image_width cam + x) * image_channels cam
      in {index + 0, index + 1, index + 2})"

section \<open>The CUDA boundary\<close>

text \<open>
  \<^verbatim>\<open>renderPixelsCUDA\<close> of the file \<^verbatim>\<open>camera_cuda.cu\<close>. The CUDA runtime is outside the program: what each of
  its calls reports, and what \<^verbatim>\<open>cudaMemcpy\<close> leaves in the host buffer, are inputs of the model.
\<close>

record device =
  malloc_image_ok :: bool
  malloc_rand_ok :: bool
  init_launch_ok :: bool
  kernel_launch_ok :: bool
  memcpy_ok :: bool
  host_after_memcpy :: "byte list"

text \<open>
  The host function: the returned \<^verbatim>\<open>unsigned long long\<close> and the host buffer after the call.
  Every failure path returns the literal \<open>0\<close>, the success path the literal \<open>1\<close>.
\<close>

definition renderPixelsCUDA :: "device \<Rightarrow> byte list \<Rightarrow> int \<Rightarrow> int \<Rightarrow> int \<Rightarrow> int \<Rightarrow> int \<times> byte list" where
  "renderPixelsCUDA dev img width height samples depth =
     (if \<not> malloc_image_ok dev \<or> \<not> malloc_rand_ok dev then (0, img)
      else if \<not> init_launch_ok dev then (0, img)
      else if \<not> kernel_launch_ok dev then (0, img)
      else if \<not> memcpy_ok dev then (0, host_after_memcpy dev)
      else (1, host_after_memcpy dev))"

text \<open>
  \<^verbatim>\<open>Camera::renderPixelsCUDA\<close>: a \<^verbatim>\<open>void\<close> member; its effects are the camera (the counter) and
  the buffer.
\<close>

definition Camera_renderPixelsCUDA :: "device \<Rightarrow> Camera \<Rightarrow> byte list \<Rightarrow> Camera \<times> byte list" where
  "Camera_renderPixelsCUDA dev cam img =
     (case renderPixelsCUDA dev img (image_width cam) (image_height cam)
             (samples_per_pixel cam) (max_depth cam) of
        (cuda_ray_count, img') \<Rightarrow> (cam\<lparr>n_rays := n_rays cam + cuda_ray_count\<rparr>, img'))"

text \<open>
  The \<^verbatim>\<open>default\<close> branch of the \<^verbatim>\<open>switch\<close> in \<^verbatim>\<open>main\<close> and the two statements after it: the
  buffer created by \<^verbatim>\<open>vector<unsigned char> localImage(image.size())\<close> is rendered into, then
  handed to \<^verbatim>\<open>dumpImageToFile\<close>, and \<^verbatim>\<open>n_rays\<close> is printed. The result is the bytes given to the
  image writer and the count printed.
\<close>

definition CHANNELS :: int where
  "CHANNELS = 3"

definition main_cuda :: "device \<Rightarrow> Camera \<Rightarrow> byte list \<times> int" where
  "main_cuda dev c =
     (let localImage = replicate (nat (image_width c * image_height c * CHANNELS)) 0
      in case Camera_renderPixelsCUDA dev c localImage of
           (c', written) \<Rightarrow> (written, n_rays c'))"

section \<open>The renderers\<close>

text \<open>
  The sample loop of \<^verbatim>\<open>Camera::computePixelColor\<close>: \<open>k\<close> iterations are left, the state is the
  colour summed so far, \<^verbatim>\<open>n_rays\<close> and the generator of the calling thread. Each iteration
  draws two numbers, builds the ray through the jittered pixel and adds \<^verbatim>\<open>ray_color\<close> of it.
\<close>

fun sample_loop ::
  "'g externals \<Rightarrow> Camera \<Rightarrow> hittable \<Rightarrow> int \<Rightarrow> int \<Rightarrow> nat \<Rightarrow> Color \<times> int \<times> 'g
     \<Rightarrow> (Color \<times> int \<times> 'g) option" where
  "sample_loop L cam scene x y 0 st = Some st"
| "sample_loop L cam scene x y (Suc k) (pixel_color, n, g) =
     (case random_double L g of
        (u1, g1) \<Rightarrow>
          (case random_double L g1 of
             (u2, g2) \<Rightarrow>
               (let offset_x = u1 - 0.5;
                    offset_y = u2 - 0.5;
                    pixel_center = pixel00_loc cam
                      + smult (of_int x + offset_x) (pixel_delta_u cam)
                      + smult (of_int y + offset_y) (pixel_delta_v cam);
                    ray_direction = pixel_center - camera_center cam;
                    ray = \<lparr>orig = camera_center cam, dir = unit_vector ray_direction\<rparr>
                in case ray_color L ray scene (max_depth cam) (n, g2) of
                     None \<Rightarrow> None
                   | Some (sample, n', g') \<Rightarrow>
                       sample_loop L cam scene x y k (pixel_color + sample, n', g'))))"

definition computePixelColor ::
  "'g externals \<Rightarrow> Camera \<Rightarrow> hittable \<Rightarrow> int \<Rightarrow> int \<Rightarrow> int \<times> 'g \<Rightarrow> (Color \<times> int \<times> 'g) option" where
  "computePixelColor L cam scene x y st =
     (case sample_loop L cam scene x y (nat (samples_per_pixel cam)) (Vec3 0 0 0, st) of
        None \<Rightarrow> None
      | Some (pixel_color, st') \<Rightarrow>
          Some (sdiv pixel_color (of_int (samples_per_pixel cam)), st'))"

text \<open>
  The body of the inner loop of both renderers, \<^verbatim>\<open>computePixelColor\<close> followed by
  \<^verbatim>\<open>setPixel\<close>, on the state made of the image buffer, \<^verbatim>\<open>n_rays\<close> and the generator of the
  thread that runs it.
\<close>

type_synonym pixel = "int \<times> int"

definition render_pixel ::
  "'g externals \<Rightarrow> Camera \<Rightarrow> hittable \<Rightarrow> pixel \<Rightarrow> byte list \<times> int \<times> 'g
     \<Rightarrow> (byte list \<times> int \<times> 'g) option" where
  "render_pixel L cam scene p st =
     (case st of
        (img, n, g) \<Rightarrow>
          (case computePixelColor L cam scene (fst p) (snd p) (n, g) of
             None \<Rightarrow> None
           | Some (pixel_color, n', g') \<Rightarrow>
               (case setPixel cam img (fst p) (snd p) pixel_color of
                  None \<Rightarrow> None
                | Some img' \<Rightarrow> Some (img', n', g'))))"

text \<open>
  The pixels visited by \<^verbatim>\<open>for (x = 0; x < image_width; ++x)\<close> in row \<open>y\<close>, and by the two
  nested loops over a list of rows, in the order of the visits.
\<close>

definition row_pixels :: "Camera \<Rightarrow> int \<Rightarrow> pixel list" where
  "row_pixels cam y = map (\<lambda>x. (x, y)) [0..image_width cam - 1]"

definition rows_pixels :: "Camera \<Rightarrow> int list \<Rightarrow> pixel list" where
  "rows_pixels cam ys = concat (map (row_pixels cam) ys)"

fun run_pixels ::
  "'g externals \<Rightarrow> Camera \<Rightarrow> hittable \<Rightarrow> pixel list \<Rightarrow> byte list \<times> int \<times> 'g
     \<Rightarrow> (byte list \<times> int \<times> 'g) option" where
  "run_pixels L cam scene [] st = Some st"
| "run_pixels L cam scene (p # ps) st =
     (case render_pixel L cam scene p st of
        None \<Rightarrow> None
      | Some st' \<Rightarrow> run_pixels L cam scene ps st')"

text \<open>
  \<^verbatim>\<open>Camera::renderPixels\<close>: all rows from 0 to \<^verbatim>\<open>image_height - 1\<close>, on the generator of the
  calling thread. The progress display and the timing are left out.
\<close>

definition renderPixels ::
  "'g externals \<Rightarrow> Camera \<Rightarrow> hittable \<Rightarrow> byte list \<Rightarrow> 'g \<Rightarrow> (byte list \<times> int \<times> 'g) option" where
  "renderPixels L cam scene img g =
     run_pixels L cam scene (rows_pixels cam [0..image_height cam - 1]) (img, n_rays cam, g)"

text \<open>
  \<^verbatim>\<open>Camera::renderPixelsParallel\<close>. The division of \<^verbatim>\<open>int\<close> truncates towards zero. Thread
  \<open>t\<close> gets the rows from \<^verbatim>\<open>t * chunk_size\<close> up to \<^verbatim>\<open>start_y + chunk_size\<close>, the last thread up
  to \<^verbatim>\<open>image_height\<close>.
\<close>

definition c_div :: "int \<Rightarrow> int \<Rightarrow> int" where
  "c_div a b = sgn a * sgn b * (\<bar>a\<bar> div \<bar>b\<bar>)"

definition band :: "Camera \<Rightarrow> int \<Rightarrow> int \<Rightarrow> int list" where
  "band cam num_threads t =
     (let chunk_size = c_div (image_height cam) num_threads;
          start_y = t * chunk_size;
          end_y = (if t = num_threads - 1 then image_height cam else start_y + chunk_size)
      in [start_y..end_y - 1])"

text \<open>
  A worker thread is the list of the pixels it has still to render and the state of its own
  generator (\<^verbatim>\<open>get_rng\<close> is \<^verbatim>\<open>thread_local\<close>); \<open>gs ! t\<close> is the generator thread \<open>t\<close> starts
  with. The image buffer and \<^verbatim>\<open>n_rays\<close> are shared.
\<close>

type_synonym 'g worker = "pixel list \<times> 'g"

definition spawn :: "Camera \<Rightarrow> int \<Rightarrow> 'g list \<Rightarrow> 'g worker list" where
  "spawn cam num_threads gs =
     map (\<lambda>t. (rows_pixels cam (band cam num_threads (int t)), gs ! t)) [0..<nat num_threads]"

text \<open>
  The threads run interleaved. A schedule is the list of the threads that get the next turn;
  in one turn a thread renders the next pixel of its band (a turn of a thread that has finished,
  or of a thread that does not exist, does nothing). The interleaving is taken at the level of
  pixels: the writes of one call of \<^verbatim>\<open>setPixel\<close> are not interleaved with those of another.
\<close>

fun step ::
  "'g externals \<Rightarrow> Camera \<Rightarrow> hittable \<Rightarrow> nat \<Rightarrow> byte list \<times> int \<times> 'g worker list
     \<Rightarrow> (byte list \<times> int \<times> 'g worker list) option" where
  "step L cam scene t (img, n, ws) =
     (if t < length ws then
        (case ws ! t of
           ([], g) \<Rightarrow> Some (img, n, ws)
         | (p # ps, g) \<Rightarrow>
             (case render_pixel L cam scene p (img, n, g) of
                None \<Rightarrow> None
              | Some (img', n', g') \<Rightarrow> Some (img', n', ws[t := (ps, g')])))
      else Some (img, n, ws))"

fun run_schedule ::
  "'g externals \<Rightarrow> Camera \<Rightarrow> hittable \<Rightarrow> nat list \<Rightarrow> byte list \<times> int \<times> 'g worker list
     \<Rightarrow> (byte list \<times> int \<times> 'g worker list) option" where
  "run_schedule L cam scene [] st = Some st"
| "run_schedule L cam scene (t # ts) st =
     (case step L cam scene t st of
        None \<Rightarrow> None
      | Some st' \<Rightarrow> run_schedule L cam scene ts st')"

text \<open>
  The loop of \<^verbatim>\<open>thread.join()\<close>: the function returns once every thread has finished. What the
  schedule has left of the bands is rendered thread after thread; the result carries the final
  generators of the threads.
\<close>

fun drain ::
  "'g externals \<Rightarrow> Camera \<Rightarrow> hittable \<Rightarrow> 'g worker list \<Rightarrow> byte list \<times> int
     \<Rightarrow> (byte list \<times> int \<times> 'g list) option" where
  "drain L cam scene [] (img, n) = Some (img, n, [])"
| "drain L cam scene ((todo, g) # ws) (img, n) =
     (case run_pixels L cam scene todo (img, n, g) of
        None \<Rightarrow> None
      | Some (img', n', g') \<Rightarrow>
          (case drain L cam scene ws (img', n') of
             None \<Rightarrow> None
           | Some (img'', n'', gs) \<Rightarrow> Some (img'', n'', g' # gs)))"

text \<open>
  \<^verbatim>\<open>num_threads\<close> is the value of \<^verbatim>\<open>std::thread::hardware_concurrency()\<close>, a parameter here.
  The library may return 0, and then \<^verbatim>\<open>image_height / num_threads\<close> divides by zero: \<open>None\<close>,
  as for a negative value, which is no size for the vector of threads.
\<close>

definition renderPixelsParallel ::
  "'g externals \<Rightarrow> Camera \<Rightarrow> hittable \<Rightarrow> int \<Rightarrow> 'g list \<Rightarrow> nat list \<Rightarrow> byte list
     \<Rightarrow> (byte list \<times> int \<times> 'g list) option" where
  "renderPixelsParallel L cam scene num_threads gs schedule img =
     (if num_threads \<le> 0 then None
      else
        (case run_schedule L cam scene schedule (img, n_rays cam, spawn cam num_threads gs) of
           None \<Rightarrow> None
         | Some (img', n', ws) \<Rightarrow> drain L cam scene ws (img', n')))"

section \<open>Nearest hit over the members' own results\<close>

text \<open>
  The selection of the specification, written on the list of the results that the members give
  for the caller's whole interval: going through them in insertion order, a result replaces the
  current one when it is a hit strictly nearer than the closest so far. The state is
  \<open>(hitSomething, closestSoFar, rec)\<close>.
\<close>

fun closest_of ::
  "(bool \<times> Hit_record) list \<Rightarrow> bool \<times> xdouble \<times> Hit_record \<Rightarrow> bool \<times> xdouble \<times> Hit_record" where
  "closest_of [] st = st"
| "closest_of ((b, R) # xs) (hs, cl, rec) =
     (if b \<and> Fin (t_rec R) < cl then closest_of xs (True, Fin (t_rec R), R)
      else closest_of xs (hs, cl, rec))"

text \<open>
  What such a state becomes when the bound it started from is lowered to \<open>c\<close>: the record
  stays if it is nearer than \<open>c\<close>, otherwise nothing was hit.
\<close>

definition narrowed ::
  "xdouble \<Rightarrow> Hit_record \<Rightarrow> bool \<times> xdouble \<times> Hit_record \<Rightarrow> bool \<times> xdouble \<times> Hit_record" where
  "narrowed c rec0 st =
     (case st of
        (hs, cl, rec) \<Rightarrow>
          if hs \<and> Fin (t_rec rec) < c then (True, cl, rec) else (False, c, rec0))"

section \<open>The same samples for every pixel\<close>

text \<open>
  The colour of a pixel and the generator left behind, as functions of the generator the pixel
  is started with (\<^verbatim>\<open>computePixelColor\<close> with the counter at 0), and the counter moved by \<open>m\<close>
  in a result.
\<close>

definition shift :: "int \<Rightarrow> (Color \<times> int \<times> 'g) option \<Rightarrow> (Color \<times> int \<times> 'g) option" where
  "shift m res = map_option (\<lambda>(c, k, g). (c, k + m, g)) res"

definition pixel_colour :: "'g externals \<Rightarrow> Camera \<Rightarrow> hittable \<Rightarrow> pixel \<Rightarrow> 'g \<Rightarrow> Color" where
  "pixel_colour L cam scene p g =
     fst (the (computePixelColor L cam scene (fst p) (snd p) (0, g)))"

definition pixel_next :: "'g externals \<Rightarrow> Camera \<Rightarrow> hittable \<Rightarrow> pixel \<Rightarrow> 'g \<Rightarrow> 'g" where
  "pixel_next L cam scene p g =
     snd (snd (the (computePixelColor L cam scene (fst p) (snd p) (0, g))))"

text \<open>
  A thread that renders the pixels \<open>ps\<close> in this order from the generator \<open>g\<close> starts every
  pixel \<open>p\<close> of the list with the generator \<open>G p\<close>: this is how a run gives each pixel the
  sample sequence that \<open>G\<close> assigns to it. The program itself seeds each thread from
  \<^verbatim>\<open>std::random_device\<close>.
\<close>

fun seeded ::
  "'g externals \<Rightarrow> Camera \<Rightarrow> hittable \<Rightarrow> (pixel \<Rightarrow> 'g) \<Rightarrow> pixel list \<Rightarrow> 'g \<Rightarrow> bool" where
  "seeded L cam scene G [] g = True"
| "seeded L cam scene G (p # ps) g =
     (g = G p \<and> seeded L cam scene G ps (pixel_next L cam scene p g))"

text \<open>
  The buffer shows the colour \<open>c\<close> at pixel \<open>p\<close>; the pixel is inside the image; and the buffer
  \<open>img\<close> is \<open>img0\<close> painted at the pixels of \<open>T\<close> with the colours of their own samples. The
  pixels the threads have still to render.
\<close>

definition shows_colour :: "Camera \<Rightarrow> byte list \<Rightarrow> pixel \<Rightarrow> Color \<Rightarrow> bool" where
  "shows_colour cam img p c =
     (let index = (snd p * image_width cam + fst p) * image_channels cam
      in img ! nat index = channel_byte (x_v c) \<and>
         img ! nat (index + 1) = channel_byte (y_v c) \<and>
         img ! nat (index + 2) = channel_byte (z_v c))"

definition in_image :: "Camera \<Rightarrow> pixel \<Rightarrow> bool" where
  "in_image cam p =
     (0 \<le> fst p \<and> fst p < image_width cam \<and> 0 \<le> snd p \<and> snd p < image_height cam)"

definition painted ::
  "'g externals \<Rightarrow> Camera \<Rightarrow> hittable \<Rightarrow> (pixel \<Rightarrow> 'g) \<Rightarrow> pixel set \<Rightarrow> byte list \<Rightarrow> byte list
     \<Rightarrow> bool" where
  "painted L cam scene G T img0 img =
     (length img = length img0 \<and>
      (\<forall>p \<in> T. shows_colour cam img p (pixel_colour L cam scene p (G p))) \<and>
      (\<forall>i < length img0.
         (\<forall>p \<in> T. int i \<notin> pixel_indices cam (fst p) (snd p)) \<longrightarrow> img ! i = img0 ! i))"

definition pending :: "'g worker list \<Rightarrow> pixel list" where
  "pending ws = concat (map fst ws)"

section \<open>Inputs of the worked examples\<close>

text \<open>
  A unit sphere at the origin and a second one five units behind it, with four rays: one towards
  the first sphere from outside, one away from it, one past it, and one starting at its centre.
\<close>

definition near_sphere :: hittable where
  "near_sphere = Sphere (Vec3 0 0 0) 1 (Constant (Vec3 1 0 0))"

definition far_sphere :: hittable where
  "far_sphere = Sphere (Vec3 0 0 (-5)) 1 (ShowNormals (Vec3 0 0 0))"

definition ray_towards :: Ray where
  "ray_towards = \<lparr>orig = Vec3 0 0 3, dir = Vec3 0 0 (-1)\<rparr>"

definition ray_away :: Ray where
  "ray_away = \<lparr>orig = Vec3 0 0 3, dir = Vec3 0 0 1\<rparr>"

definition ray_past :: Ray where
  "ray_past = \<lparr>orig = Vec3 0 0 3, dir = Vec3 0 1 0\<rparr>"

definition ray_inside :: Ray where
  "ray_inside = \<lparr>orig = Vec3 0 0 0, dir = Vec3 1 0 0\<rparr>"

text \<open>The interval that \<^verbatim>\<open>ray_color\<close> passes to \<^verbatim>\<open>hit\<close>.\<close>

definition camera_interval :: "xdouble Interval" where
  "camera_interval = Interval (Fin 0.0001) inf_d"

text \<open>The two spheres in one list, the far one first, and that list nested in another.\<close>

definition two_spheres :: hittable where
  "two_spheres = Hittable_list [far_sphere, near_sphere]"

definition nested_scene :: hittable where
  "nested_scene = Hittable_list [Hittable_list [], two_spheres]"

text \<open>
  Two cameras, given by the members that \<^verbatim>\<open>setPixel\<close> reads: one for an image of two pixels with
  three channels, and one with the dimensions of a default-constructed camera, whose constructor
  \<^verbatim>\<open>Camera() : Camera(Vec3(0, 0, 0), 720, 3, 1)\<close> passes width 720, height 3 and one channel.
\<close>

definition two_pixel_camera :: Camera where
  "two_pixel_camera =
     \<lparr>image_width = 2, image_height = 1, image_channels = 3, n_rays = 0,
      samples_per_pixel = 1, max_depth = 16, camera_center = 0, pixel00_loc = 0,
      pixel_delta_u = 0, pixel_delta_v = 0\<rparr>"

definition default_dims_camera :: Camera where
  "default_dims_camera =
     \<lparr>image_width = 720, image_height = 3, image_channels = 1, n_rays = 0,
      samples_per_pixel = 1, max_depth = 16, camera_center = 0, pixel00_loc = 0,
      pixel_delta_u = 0, pixel_delta_v = 0\<rparr>"

text \<open>
  A sphere whose material is an object of the base class \<^verbatim>\<open>Material\<close>, and an instance of the
  library parameters for a run that draws nothing at random.
\<close>

definition plain_sphere :: hittable where
  "plain_sphere = Sphere (Vec3 0 0 0) 1 Material"

definition no_random :: "unit externals" where
  "no_random =
     \<lparr>random_double = (\<lambda>g. (0.5, g)), random_in_hemisphere = (\<lambda>v g. (v, g)),
      near_zero = (\<lambda>v. False)\<rparr>"

text \<open>A device on which the first allocation fails, and one on which every call succeeds.\<close>

definition failing_device :: device where
  "failing_device =
     \<lparr>malloc_image_ok = False, malloc_rand_ok = True, init_launch_ok = True,
      kernel_launch_ok = True, memcpy_ok = True, host_after_memcpy = [1, 2, 3, 4, 5, 6]\<rparr>"

definition working_device :: device where
  "working_device =
     \<lparr>malloc_image_ok = True, malloc_rand_ok = True, init_launch_ok = True,
      kernel_launch_ok = True, memcpy_ok = True, host_after_memcpy = [1, 2, 3, 4, 5, 6]\<rparr>"

text \<open>
  An image of one column and two rows behind which there is nothing, seen by a camera at the
  origin; the number of channels is left open. A generator that counts its calls and always
  returns 0.5, and the generator each of the two pixels starts with in a run from 0.
\<close>

definition counting_random :: "nat externals" where
  "counting_random =
     \<lparr>random_double = (\<lambda>g. (0.5, g + 1)), random_in_hemisphere = (\<lambda>v g. (v, g + 1)),
      near_zero = (\<lambda>v. False)\<rparr>"

definition column_camera :: "int \<Rightarrow> Camera" where
  "column_camera channels =
     \<lparr>image_width = 1, image_height = 2, image_channels = channels, n_rays = 0,
      samples_per_pixel = 1, max_depth = 16, camera_center = 0, pixel00_loc = Vec3 0 0 (- 4),
      pixel_delta_u = Vec3 3 0 0, pixel_delta_v = Vec3 0 (- 3) 0\<rparr>"

definition row_seed :: "pixel \<Rightarrow> nat" where
  "row_seed p = nat (2 * snd p)"

definition empty_scene :: hittable where
  "empty_scene = Hittable_list []"

section \<open>Basic facts\<close>

lemma Fin_less [simp]: "Fin u < Fin v \<longleftrightarrow> u < v"
  by (auto simp: less_xdouble_def less_eq_xdouble_def)

lemma Fin_le [simp]: "Fin u \<le> Fin v \<longleftrightarrow> u \<le> v"
  by (auto simp: less_eq_xdouble_def)

lemma xdouble_inf_simps [simp]:
  "Fin u < PInf" "MInf < Fin u" "\<not> PInf < b" "\<not> b < MInf" "b \<le> PInf" "MInf \<le> b"
  by (auto simp: less_xdouble_def less_eq_xdouble_def split: xdouble.splits)

lemma length_squared_dot: "length_squared v = dot v v"
  by (simp add: length_squared_def dot_def)

lemma length_squared_nonneg: "0 \<le> length_squared v"
  by (simp add: length_squared_def)

lemma length_v_sq: "(length_v v)\<^sup>2 = length_squared v"
  by (simp add: length_v_def length_squared_nonneg)

lemma length_squared_zero_iff: "length_squared v = 0 \<longleftrightarrow> v = 0"
  by (cases v)
    (auto simp: length_squared_def zero_Vec3_def power2_eq_square[symmetric]
      add_nonneg_eq_0_iff)

lemmas vec_eval =
  dot_def length_squared_def length_v_def minus_Vec3_def plus_Vec3_def uminus_Vec3_def
  times_Vec3_def zero_Vec3_def smult_def sdiv_def unit_vector_def Ray_at_def

lemmas hit_eval =
  Sphere_hit_def Sphere_accept_def Let_def surrounds_def Interval_def inf_d_def
  camera_interval_def Hit_record_default_def near_sphere_def far_sphere_def
  ray_towards_def ray_away_def ray_past_def ray_inside_def

section \<open>Sphere::hit against the quadratic\<close>

lemma Sphere_hit_miss:
  "Sphere_hit center radius mat r ray_t rec = (False, rec') \<Longrightarrow> rec' = rec"
  by (auto simp: Sphere_hit_def Let_def split: if_splits)

lemma Sphere_hit_surrounds:
  "Sphere_hit center radius mat r ray_t rec = (True, rec') \<Longrightarrow>
     surrounds ray_t (Fin (t_rec rec'))"
  by (auto simp: Sphere_hit_def Let_def Sphere_accept_def split: if_splits)

text \<open>The code against the quadratic of the specification, as one case distinction.\<close>

lemma Sphere_hit_spec:
  "Sphere_hit center radius mat r ray_t rec =
     (if spec_discriminant center radius r < 0 \<or> dir r = 0 then (False, rec)
      else if surrounds ray_t (Fin (spec_smaller_root center radius r))
        then (True, Sphere_accept center radius mat r (spec_smaller_root center radius r) rec)
      else if surrounds ray_t (Fin (spec_larger_root center radius r))
        then (True, Sphere_accept center radius mat r (spec_larger_root center radius r) rec)
      else (False, rec))"
proof (cases "length_squared (dir r) = 0")
  case True
  then have "dir r = 0"
    by (simp add: length_squared_zero_iff)
  with True show ?thesis
    by (simp add: Sphere_hit_def Let_def)
next
  case False
  then have "dir r \<noteq> 0"
    by (simp add: length_squared_zero_iff)
  with False show ?thesis
    unfolding Sphere_hit_def Let_def spec_smaller_root_def spec_larger_root_def
      spec_discriminant_def spec_a_def spec_h_def spec_c_def length_v_sq
    by (simp add: length_squared_dot[symmetric] power2_eq_square)
qed

text \<open>
  C3. For every sphere, ray, interval and record: \<^verbatim>\<open>Sphere::hit\<close> returns false when the
  discriminant \<open>h\<^sup>2 - a c\<close> of the specification's quadratic is negative; otherwise, for a ray
  with a direction, it accepts the smaller root \<open>(h - \<surd>disc) / a\<close> when the interval surrounds
  it, the larger root \<open>(h + \<surd>disc) / a\<close> when the interval surrounds it but not the smaller
  one, and returns false when the interval surrounds neither. A ray whose direction is the zero
  vector (\<open>a = 0\<close>, both roots NaN in the program) is a miss as well.
\<close>

theorem Sphere_hit_quadratic:
  "(spec_discriminant center radius r < 0 \<longrightarrow>
      hit (Sphere center radius mat) r ray_t rec = (False, rec)) \<and>
   (0 \<le> spec_discriminant center radius r \<and> dir r \<noteq> 0 \<and>
    surrounds ray_t (Fin (spec_smaller_root center radius r)) \<longrightarrow>
      hit (Sphere center radius mat) r ray_t rec =
        (True, Sphere_accept center radius mat r (spec_smaller_root center radius r) rec)) \<and>
   (0 \<le> spec_discriminant center radius r \<and> dir r \<noteq> 0 \<and>
    \<not> surrounds ray_t (Fin (spec_smaller_root center radius r)) \<and>
    surrounds ray_t (Fin (spec_larger_root center radius r)) \<longrightarrow>
      hit (Sphere center radius mat) r ray_t rec =
        (True, Sphere_accept center radius mat r (spec_larger_root center radius r) rec)) \<and>
   (\<not> surrounds ray_t (Fin (spec_smaller_root center radius r)) \<and>
    \<not> surrounds ray_t (Fin (spec_larger_root center radius r)) \<longrightarrow>
      hit (Sphere center radius mat) r ray_t rec = (False, rec)) \<and>
   (dir r = 0 \<longrightarrow> hit (Sphere center radius mat) r ray_t rec = (False, rec))"
  by (simp add: Sphere_hit_spec)

lemmas spec_eval =
  spec_discriminant_def spec_a_def spec_h_def spec_c_def spec_smaller_root_def
  spec_larger_root_def

theorem Sphere_hit_quadratic_witness:
  "spec_discriminant (Vec3 0 0 0) 1 ray_past = - 8 \<and>
   hit near_sphere ray_past camera_interval Hit_record_default = (False, Hit_record_default) \<and>
   spec_smaller_root (Vec3 0 0 0) 1 ray_towards = 2 \<and>
   t_rec (snd (hit near_sphere ray_towards camera_interval Hit_record_default)) = 2 \<and>
   spec_smaller_root (Vec3 0 0 0) 1 ray_inside = - 1 \<and>
   spec_larger_root (Vec3 0 0 0) 1 ray_inside = 1 \<and>
   t_rec (snd (hit near_sphere ray_inside camera_interval Hit_record_default)) = 1 \<and>
   spec_smaller_root (Vec3 0 0 0) 1 ray_away = - 4 \<and>
   spec_larger_root (Vec3 0 0 0) 1 ray_away = - 2 \<and>
   hit near_sphere ray_away camera_interval Hit_record_default = (False, Hit_record_default)"
proof -
  let ?m = "Constant (Vec3 1 0 0)"
  have d_past: "spec_discriminant (Vec3 0 0 0) 1 ray_past = - 8"
    by (simp add: spec_eval vec_eval ray_past_def)
  have d_tow: "spec_discriminant (Vec3 0 0 0) 1 ray_towards = 1"
    by (simp add: spec_eval vec_eval ray_towards_def)
  have d_in: "spec_discriminant (Vec3 0 0 0) 1 ray_inside = 1"
    by (simp add: spec_eval vec_eval ray_inside_def)
  have d_away: "spec_discriminant (Vec3 0 0 0) 1 ray_away = 1"
    by (simp add: spec_eval vec_eval ray_away_def)
  have r_tow: "spec_smaller_root (Vec3 0 0 0) 1 ray_towards = 2"
    by (simp add: spec_eval vec_eval ray_towards_def)
  have r_in: "spec_smaller_root (Vec3 0 0 0) 1 ray_inside = - 1"
    "spec_larger_root (Vec3 0 0 0) 1 ray_inside = 1"
    by (simp_all add: spec_eval vec_eval ray_inside_def)
  have r_away: "spec_smaller_root (Vec3 0 0 0) 1 ray_away = - 4"
    "spec_larger_root (Vec3 0 0 0) 1 ray_away = - 2"
    by (simp_all add: spec_eval vec_eval ray_away_def)
  have dirs: "dir ray_towards \<noteq> 0" "dir ray_inside \<noteq> 0"
    by (simp_all add: ray_towards_def ray_inside_def zero_Vec3_def)
  note q = Sphere_hit_quadratic[of "Vec3 0 0 0" 1 _ ?m camera_interval Hit_record_default]
  have "hit near_sphere ray_past camera_interval Hit_record_default = (False, Hit_record_default)"
    using q[of ray_past] d_past by (simp add: near_sphere_def)
  moreover have "hit near_sphere ray_towards camera_interval Hit_record_default =
      (True, Sphere_accept (Vec3 0 0 0) 1 ?m ray_towards 2 Hit_record_default)"
    using q[of ray_towards] d_tow r_tow dirs
    by (simp add: near_sphere_def surrounds_def camera_interval_def Interval_def inf_d_def)
  moreover have "hit near_sphere ray_inside camera_interval Hit_record_default =
      (True, Sphere_accept (Vec3 0 0 0) 1 ?m ray_inside 1 Hit_record_default)"
    using q[of ray_inside] d_in r_in dirs
    by (simp add: near_sphere_def surrounds_def camera_interval_def Interval_def inf_d_def)
  moreover have "hit near_sphere ray_away camera_interval Hit_record_default =
      (False, Hit_record_default)"
    using q[of ray_away] r_away
    by (simp add: near_sphere_def surrounds_def camera_interval_def Interval_def inf_d_def)
  ultimately show ?thesis
    using d_past r_tow r_in r_away by (simp add: Sphere_accept_def)
qed

section \<open>A miss leaves the record alone\<close>

text \<open>
  The loop of \<^verbatim>\<open>Hittable_list::hit\<close>, given that a miss of a member leaves the record it was
  passed unchanged: \<open>hitSomething\<close> never goes back to false, and while it is false the caller's
  record is the one the loop started with.
\<close>

lemma hit_objects_miss:
  assumes "\<And>obj iv rec rec'.
      obj \<in> set objs \<Longrightarrow> hit obj r iv rec = (False, rec') \<Longrightarrow> rec' = rec"
    and "hit_objects objs r tmin (tmp, hs, cl, rec) = (tmp', hs', cl', rec')"
  shows "(hs \<longrightarrow> hs') \<and> (\<not> hs' \<longrightarrow> rec' = rec)"
  using assms
proof (induction objs arbitrary: tmp hs cl rec)
  case Nil
  then show ?case by simp
next
  case (Cons obj objs)
  obtain b tmp1 where h: "hit obj r (Interval tmin cl) tmp = (b, tmp1)"
    by (cases "hit obj r (Interval tmin cl) tmp")
  have mem: "\<And>obj iv rec rec'.
      obj \<in> set objs \<Longrightarrow> hit obj r iv rec = (False, rec') \<Longrightarrow> rec' = rec"
    using Cons.prems(1) by (meson list.set_intros(2))
  show ?case
  proof (cases b)
    case True
    with h Cons.prems(2)
    have "hit_objects objs r tmin (tmp1, True, Fin (t_rec tmp1), tmp1) = (tmp', hs', cl', rec')"
      by simp
    from Cons.IH[OF mem this] show ?thesis by simp
  next
    case False
    with h Cons.prems(2)
    have "hit_objects objs r tmin (tmp1, hs, cl, rec) = (tmp', hs', cl', rec')"
      by simp
    from Cons.IH[OF mem this] show ?thesis by simp
  qed
qed

text \<open>
  C9. For every hittable (a sphere, or a list nested to any depth), every ray, interval and
  caller's record: when \<^verbatim>\<open>hit\<close> returns false, the record after the call is the record before
  it.
\<close>

theorem hit_false_record_unchanged:
  "hit h r ray_t rec = (False, rec') \<Longrightarrow> rec' = rec"
proof (induction h arbitrary: r ray_t rec rec')
  case (Sphere center radius mat)
  then show ?case by (simp add: Sphere_hit_miss)
next
  case (Hittable_list objs)
  obtain tmp1 hs1 cl1 rec1 where
    l: "hit_objects objs r (min_b ray_t) (Hit_record_default, False, max_b ray_t, rec)
          = (tmp1, hs1, cl1, rec1)"
    by (metis prod_cases4)
  with Hittable_list.prems have "hs1 = False" "rec1 = rec'"
    by simp_all
  moreover from hit_objects_miss[OF _ l] Hittable_list.IH have "\<not> hs1 \<longrightarrow> rec1 = rec"
    by blast
  ultimately show ?case by simp
qed

theorem hit_false_record_unchanged_witness:
  "fst (hit nested_scene ray_away camera_interval (Hit_record_default\<lparr>t_rec := 42\<rparr>)) = False \<and>
   snd (hit nested_scene ray_away camera_interval (Hit_record_default\<lparr>t_rec := 42\<rparr>))
     = Hit_record_default\<lparr>t_rec := 42\<rparr>"
proof -
  let ?rec = "Hit_record_default\<lparr>t_rec := 42\<rparr>"
  have miss: "fst (hit nested_scene ray_away camera_interval ?rec) = False"
    by (simp add: nested_scene_def two_spheres_def hit_eval vec_eval)
  then have "hit nested_scene ray_away camera_interval ?rec
      = (False, snd (hit nested_scene ray_away camera_interval ?rec))"
    by (simp add: prod_eq_iff)
  from hit_false_record_unchanged[OF this] miss show ?thesis
    by simp
qed

section \<open>An accepted distance lies strictly inside the interval\<close>

lemma hit_objects_bounds:
  assumes "\<And>obj iv rec rec'.
      obj \<in> set objs \<Longrightarrow> hit obj r iv rec = (True, rec') \<Longrightarrow> surrounds iv (Fin (t_rec rec'))"
    and "hit_objects objs r tmin (tmp, hs, cl, rec) = (tmp', hs', cl', rec')"
    and "cl \<le> mx"
    and "hs \<longrightarrow> tmin < Fin (t_rec rec) \<and> Fin (t_rec rec) < mx"
  shows "hs' \<longrightarrow> tmin < Fin (t_rec rec') \<and> Fin (t_rec rec') < mx"
  using assms
proof (induction objs arbitrary: tmp hs cl rec)
  case Nil
  then show ?case by simp
next
  case (Cons obj objs)
  obtain b tmp1 where h: "hit obj r (Interval tmin cl) tmp = (b, tmp1)"
    by (cases "hit obj r (Interval tmin cl) tmp")
  have mem: "\<And>obj iv rec rec'.
      obj \<in> set objs \<Longrightarrow> hit obj r iv rec = (True, rec') \<Longrightarrow> surrounds iv (Fin (t_rec rec'))"
    using Cons.prems(1) by (meson list.set_intros(2))
  show ?case
  proof (cases b)
    case True
    with h Cons.prems(2)
    have run: "hit_objects objs r tmin (tmp1, True, Fin (t_rec tmp1), tmp1)
        = (tmp', hs', cl', rec')"
      by simp
    from True h Cons.prems(1)[of obj]
    have "surrounds (Interval tmin cl) (Fin (t_rec tmp1))"
      by simp
    then have in1: "tmin < Fin (t_rec tmp1)" "Fin (t_rec tmp1) < cl"
      by (simp_all add: surrounds_def Interval_def)
    with Cons.prems(3) have "Fin (t_rec tmp1) \<le> mx" "Fin (t_rec tmp1) < mx"
      by auto
    with in1 Cons.IH[OF mem run] show ?thesis
      by simp
  next
    case False
    with h Cons.prems(2)
    have run: "hit_objects objs r tmin (tmp1, hs, cl, rec) = (tmp', hs', cl', rec')"
      by simp
    from Cons.IH[OF mem run Cons.prems(3) Cons.prems(4)] show ?thesis .
  qed
qed

lemma hit_surrounds:
  "hit h r ray_t rec = (True, rec') \<Longrightarrow> surrounds ray_t (Fin (t_rec rec'))"
proof (induction h arbitrary: r ray_t rec rec')
  case (Sphere center radius mat)
  then show ?case by (simp add: Sphere_hit_surrounds)
next
  case (Hittable_list objs)
  obtain tmp1 hs1 cl1 rec1 where
    l: "hit_objects objs r (min_b ray_t) (Hit_record_default, False, max_b ray_t, rec)
          = (tmp1, hs1, cl1, rec1)"
    by (metis prod_cases4)
  with Hittable_list.prems have e: "hs1 = True" "rec1 = rec'"
    by simp_all
  have "hs1 \<longrightarrow> min_b ray_t < Fin (t_rec rec1) \<and> Fin (t_rec rec1) < max_b ray_t"
    by (rule hit_objects_bounds[OF _ l]) (use Hittable_list.IH in auto)
  with e show ?case
    by (simp add: surrounds_def)
qed

text \<open>
  C8. For every hittable, ray, interval and record: when \<^verbatim>\<open>hit\<close> returns true, the distance
  \<open>t\<close> of the returned record satisfies \<open>ray_t.min < t < ray_t.max\<close>, both strictly. For the
  interval \<open>(0.0001, inf)\<close> that \<^verbatim>\<open>ray_color\<close> passes, \<open>t\<close> is therefore greater than
  \<open>0.0001\<close>; it is a finite number, below the upper bound \<open>inf\<close>.
\<close>

theorem hit_true_strictly_inside:
  "(hit h r ray_t rec = (True, rec') \<longrightarrow>
      min_b ray_t < Fin (t_rec rec') \<and> Fin (t_rec rec') < max_b ray_t) \<and>
   (hit h r (Interval (Fin 0.0001) inf_d) rec = (True, rec') \<longrightarrow>
      0.0001 < t_rec rec' \<and> Fin (t_rec rec') < inf_d)"
proof -
  have "surrounds (Interval (Fin 0.0001) inf_d) (Fin (t_rec rec'))"
    if "hit h r (Interval (Fin 0.0001) inf_d) rec = (True, rec')"
    using that by (rule hit_surrounds)
  then show ?thesis
    using hit_surrounds[of h r ray_t rec rec']
    by (auto simp: surrounds_def Interval_def)
qed

theorem hit_true_strictly_inside_witness:
  "fst (hit nested_scene ray_towards (Interval (Fin 0.0001) inf_d) Hit_record_default) \<and>
   t_rec (snd (hit nested_scene ray_towards (Interval (Fin 0.0001) inf_d) Hit_record_default)) = 2 \<and>
   (0.0001 :: real) < 2 \<and> Fin 2 < inf_d"
proof -
  let ?iv = "Interval (Fin 0.0001) inf_d"
  let ?res = "hit nested_scene ray_towards ?iv Hit_record_default"
  have ev: "fst ?res" "t_rec (snd ?res) = 2"
    by (simp_all add: nested_scene_def two_spheres_def hit_eval vec_eval)
  then have "?res = (True, snd ?res)"
    by (simp add: prod_eq_iff)
  with hit_true_strictly_inside[of nested_scene ray_towards ?iv Hit_record_default "snd ?res"]
  have "0.0001 < t_rec (snd ?res) \<and> Fin (t_rec (snd ?res)) < inf_d"
    by simp
  with ev show ?thesis
    by simp
qed

section \<open>What Sphere::hit writes on acceptance\<close>

lemma Sphere_hit_fields:
  assumes "Sphere_hit center radius mat r ray_t rec = (True, rec')"
  shows "p_rec rec' = Ray_at r (t_rec rec')"
    and "normal rec' = sdiv (p_rec rec' - center) radius"
    and "mat_ptr rec' = Some mat"
    and "frontFacing rec' = frontFacing rec"
  using assms
  by (auto simp: Sphere_hit_def Let_def Sphere_accept_def split: if_splits)

text \<open>
  C1, at a ray that starts at the centre of the unit sphere and leaves through its surface. The
  hit is accepted at \<open>t = 1\<close>; the record holds the outward normal \<open>(1, 0, 0)\<close>, which points
  along the ray (their dot product is \<open>1\<close>) and not against it; \<open>frontFacing\<close> keeps the value
  the caller's record had, here \<open>True\<close>, although the ray meets the back face; the material is
  bound. \<^verbatim>\<open>set_face_normal\<close>, applied to the same record, would store \<open>(-1, 0, 0)\<close> and
  \<open>False\<close>.
\<close>

theorem Sphere_hit_from_inside:
  "hit near_sphere ray_inside camera_interval (Hit_record_default\<lparr>frontFacing := True\<rparr>) =
     (True, \<lparr>p_rec = Vec3 1 0 0, normal = Vec3 1 0 0, t_rec = 1, frontFacing = True,
             mat_ptr = Some (Constant (Vec3 1 0 0))\<rparr>) \<and>
   dot (dir ray_inside) (Vec3 1 0 0) = 1 \<and>
   set_face_normal
     \<lparr>p_rec = Vec3 1 0 0, normal = Vec3 1 0 0, t_rec = 1, frontFacing = True,
      mat_ptr = Some (Constant (Vec3 1 0 0))\<rparr> ray_inside (Vec3 1 0 0) =
     \<lparr>p_rec = Vec3 1 0 0, normal = Vec3 (- 1) 0 0, t_rec = 1, frontFacing = False,
      mat_ptr = Some (Constant (Vec3 1 0 0))\<rparr>"
  by (simp add: hit_eval vec_eval set_face_normal_def)

section \<open>Nearest hit of a Hittable_list\<close>

subsection \<open>What hit reads of the caller's record\<close>

text \<open>
  The loop does not read the caller's record: run from two states that differ in that record
  only, it ends in states that differ in that record at most, and only if nothing was hit.
\<close>

lemma hit_objects_rec_indep:
  assumes "hit_objects objs r tmin (tmp, hs, cl, rec1) = (tmp', hs', cl', rec1')"
  shows "\<exists>rec2'. hit_objects objs r tmin (tmp, hs, cl, rec2) = (tmp', hs', cl', rec2') \<and>
           (rec2' = rec1' \<or> (rec1' = rec1 \<and> rec2' = rec2 \<and> hs' = hs))"
  using assms
proof (induction objs arbitrary: tmp hs cl rec1 rec2)
  case Nil
  then show ?case by simp
next
  case (Cons obj objs)
  obtain b tmp1 where h: "hit obj r (Interval tmin cl) tmp = (b, tmp1)"
    by (cases "hit obj r (Interval tmin cl) tmp")
  show ?case
  proof (cases b)
    case True
    with h Cons.prems
    have run: "hit_objects objs r tmin (tmp1, True, Fin (t_rec tmp1), tmp1) = (tmp', hs', cl', rec1')"
      by simp
    from True h have "hit_objects (obj # objs) r tmin (tmp, hs, cl, rec2)
        = hit_objects objs r tmin (tmp1, True, Fin (t_rec tmp1), tmp1)"
      by simp
    with run show ?thesis by simp
  next
    case False
    with h Cons.prems
    have run: "hit_objects objs r tmin (tmp1, hs, cl, rec1) = (tmp', hs', cl', rec1')"
      by simp
    from False h have "hit_objects (obj # objs) r tmin (tmp, hs, cl, rec2)
        = hit_objects objs r tmin (tmp1, hs, cl, rec2)"
      by simp
    with Cons.IH[OF run, of rec2] show ?thesis by simp
  qed
qed

lemma Sphere_hit_flag:
  "fst (Sphere_hit center radius mat r iv rec1) = fst (Sphere_hit center radius mat r iv rec2)"
  by (simp add: Sphere_hit_spec)

lemma Sphere_accept_t [simp]: "t_rec (Sphere_accept center radius mat r rt rec) = rt"
  by (simp add: Sphere_accept_def)

lemma Sphere_accept_same_ff:
  "frontFacing rec1 = frontFacing rec2 \<Longrightarrow>
   Sphere_accept center radius mat r rt rec1 = Sphere_accept center radius mat r rt rec2"
  by (cases rec1, cases rec2) (simp add: Sphere_accept_def)

lemma Sphere_hit_t:
  "fst (Sphere_hit center radius mat r iv rec1) \<Longrightarrow>
   t_rec (snd (Sphere_hit center radius mat r iv rec1)) = t_rec (snd (Sphere_hit center radius mat r iv rec2))"
  by (auto simp: Sphere_hit_spec split: if_splits)

lemma Sphere_hit_same_ff:
  "frontFacing rec1 = frontFacing rec2 \<Longrightarrow> fst (Sphere_hit center radius mat r iv rec1) \<Longrightarrow>
   snd (Sphere_hit center radius mat r iv rec1) = snd (Sphere_hit center radius mat r iv rec2)"
  by (auto simp: Sphere_hit_spec Sphere_accept_same_ff[of rec1 rec2] split: if_splits)

lemma list_hit_indep:
  assumes "fst (hit (Hittable_list objs) r iv rec1)"
  shows "hit (Hittable_list objs) r iv rec2 = hit (Hittable_list objs) r iv rec1"
proof -
  obtain tmp' hs' cl' rec1' where
    l: "hit_objects objs r (min_b iv) (Hit_record_default, False, max_b iv, rec1) = (tmp', hs', cl', rec1')"
    by (metis prod_cases4)
  with assms have hs': "hs'" by simp
  from hit_objects_rec_indep[OF l, of rec2] hs' obtain rec2' where
    "hit_objects objs r (min_b iv) (Hit_record_default, False, max_b iv, rec2) = (tmp', hs', cl', rec2')"
    "rec2' = rec1'"
    by auto
  with l show ?thesis by simp
qed

lemma list_hit_flag:
  "fst (hit (Hittable_list objs) r iv rec1) = fst (hit (Hittable_list objs) r iv rec2)"
proof (cases "fst (hit (Hittable_list objs) r iv rec1)")
  case True
  with list_hit_indep[OF True, of rec2] show ?thesis by simp
next
  case False
  show ?thesis
  proof (cases "fst (hit (Hittable_list objs) r iv rec2)")
    case True
    with list_hit_indep[OF True, of rec1] show ?thesis by simp
  next
    case False2: False
    with False show ?thesis by simp
  qed
qed

lemma hit_flag_indep: "fst (hit h r iv rec1) = fst (hit h r iv rec2)"
proof (cases h)
  case (Sphere center radius mat)
  then show ?thesis by (simp add: Sphere_hit_flag[of _ _ _ _ _ rec1 rec2])
next
  case (Hittable_list objs)
  then show ?thesis by (simp only: list_hit_flag[of _ _ _ rec1 rec2])
qed

lemma hit_t_indep:
  "fst (hit h r iv rec1) \<Longrightarrow> t_rec (snd (hit h r iv rec1)) = t_rec (snd (hit h r iv rec2))"
proof (cases h)
  case (Sphere center radius mat)
  assume "fst (hit h r iv rec1)"
  with Sphere show ?thesis by (simp add: Sphere_hit_t[of _ _ _ _ _ rec1 rec2])
next
  case (Hittable_list objs)
  assume "fst (hit h r iv rec1)"
  with Hittable_list show ?thesis using list_hit_indep[of objs r iv rec1 rec2] by simp
qed

lemma hit_same_ff:
  "frontFacing rec1 = frontFacing rec2 \<Longrightarrow> fst (hit h r iv rec1) \<Longrightarrow>
   snd (hit h r iv rec1) = snd (hit h r iv rec2)"
proof (cases h)
  case (Sphere center radius mat)
  assume "frontFacing rec1 = frontFacing rec2" "fst (hit h r iv rec1)"
  with Sphere show ?thesis by (simp add: Sphere_hit_same_ff[of rec1 rec2])
next
  case (Hittable_list objs)
  assume "fst (hit h r iv rec1)"
  with Hittable_list show ?thesis using list_hit_indep[of objs r iv rec1 rec2] by simp
qed

subsection \<open>The selection on results\<close>

text \<open>
  What \<open>closest_of\<close> returns: a bound no larger than the one it started with and than every
  hit of the list, and either the state it started with (then no hit of the list is below the
  starting bound) or a hit of the list, with its distance as the bound.
\<close>

lemma closest_of_result:
  assumes "closest_of xs (hs, cl, rec) = (hs', cl', rec')"
  shows "cl' \<le> cl \<and>
     (\<forall>R. (True, R) \<in> set xs \<longrightarrow> cl' \<le> Fin (t_rec R)) \<and>
     ((hs' = hs \<and> cl' = cl \<and> rec' = rec \<and> (\<forall>R. (True, R) \<in> set xs \<longrightarrow> \<not> Fin (t_rec R) < cl)) \<or>
      (hs' \<and> (True, rec') \<in> set xs \<and> cl' = Fin (t_rec rec') \<and> cl' < cl))"
  using assms
proof (induction xs arbitrary: hs cl rec)
  case Nil
  then show ?case by simp
next
  case (Cons x xs)
  obtain b R where x: "x = (b, R)" by (cases x)
  show ?case
  proof (cases "b \<and> Fin (t_rec R) < cl")
    case True
    with Cons.prems x have run: "closest_of xs (True, Fin (t_rec R), R) = (hs', cl', rec')"
      by simp
    note ih = Cons.IH[OF run]
    from ih True have "cl' \<le> cl" by (auto simp del: Fin_less Fin_le)
    moreover from ih True x have "\<forall>R. (True, R) \<in> set (x # xs) \<longrightarrow> cl' \<le> Fin (t_rec R)" by (auto simp del: Fin_less Fin_le)
    moreover from ih True x have "hs' \<and> (True, rec') \<in> set (x # xs) \<and> cl' = Fin (t_rec rec') \<and> cl' < cl"
      by (auto simp del: Fin_less Fin_le)
    ultimately show ?thesis by blast
  next
    case False
    with Cons.prems x have run: "closest_of xs (hs, cl, rec) = (hs', cl', rec')"
      by (auto simp del: Fin_less Fin_le)
    note ih = Cons.IH[OF run]
    from ih have "cl' \<le> cl" by (auto simp del: Fin_less Fin_le)
    moreover from ih False x have "\<forall>R. (True, R) \<in> set (x # xs) \<longrightarrow> cl' \<le> Fin (t_rec R)" by (auto simp del: Fin_less Fin_le)
    moreover from ih False x have "(hs' = hs \<and> cl' = cl \<and> rec' = rec \<and> (\<forall>R. (True, R) \<in> set (x # xs) \<longrightarrow> \<not> Fin (t_rec R) < cl)) \<or>
      (hs' \<and> (True, rec') \<in> set (x # xs) \<and> cl' = Fin (t_rec rec') \<and> cl' < cl)"
      by (auto simp del: Fin_less Fin_le)
    ultimately show ?thesis by blast
  qed
qed

text \<open>Lowering the starting bound and selecting commute.\<close>

lemma closest_of_narrow_gen:
  assumes "hs2 \<longrightarrow> cl2 = Fin (t_rec rec2)" and "\<not> hs2 \<longrightarrow> c \<le> cl2"
  shows "closest_of xs (narrowed c rec0 (hs2, cl2, rec2)) = narrowed c rec0 (closest_of xs (hs2, cl2, rec2))"
  using assms
proof (induction xs arbitrary: hs2 cl2 rec2)
  case Nil
  then show ?case by simp
next
  case (Cons x xs)
  obtain b R where x: "x = (b, R)" by (cases x)
  show ?case
  proof (cases "b \<and> Fin (t_rec R) < cl2")
    case True
    then have s2: "closest_of (x # xs) (hs2, cl2, rec2) = closest_of xs (True, Fin (t_rec R), R)"
      using x by simp
    have ih: "closest_of xs (narrowed c rec0 (True, Fin (t_rec R), R)) = narrowed c rec0 (closest_of xs (True, Fin (t_rec R), R))"
      by (rule Cons.IH) simp_all
    show ?thesis
    proof (cases "Fin (t_rec R) < c")
      case inC: True
      have "closest_of (x # xs) (narrowed c rec0 (hs2, cl2, rec2)) = closest_of xs (True, Fin (t_rec R), R)"
        using True inC x by (auto simp: narrowed_def)
      moreover have "narrowed c rec0 (True, Fin (t_rec R), R) = (True, Fin (t_rec R), R)"
        using inC by (simp add: narrowed_def)
      ultimately show ?thesis using ih s2 by simp
    next
      case outC: False
      have n2: "narrowed c rec0 (hs2, cl2, rec2) = (False, c, rec0)"
        using True outC Cons.prems by (auto simp: narrowed_def simp del: Fin_less Fin_le)
      have "closest_of (x # xs) (False, c, rec0) = closest_of xs (False, c, rec0)"
        using outC x by simp
      moreover have "narrowed c rec0 (True, Fin (t_rec R), R) = (False, c, rec0)"
        using outC by (simp add: narrowed_def)
      ultimately show ?thesis using ih s2 n2 by simp
    qed
  next
    case False
    then have s2: "closest_of (x # xs) (hs2, cl2, rec2) = closest_of xs (hs2, cl2, rec2)"
      using x by auto
    have ih: "closest_of xs (narrowed c rec0 (hs2, cl2, rec2)) = narrowed c rec0 (closest_of xs (hs2, cl2, rec2))"
      by (rule Cons.IH) (use Cons.prems in simp_all)
    have "closest_of (x # xs) (narrowed c rec0 (hs2, cl2, rec2)) = closest_of xs (narrowed c rec0 (hs2, cl2, rec2))"
    proof (cases "hs2 \<and> Fin (t_rec rec2) < c")
      case True
      then have "narrowed c rec0 (hs2, cl2, rec2) = (True, cl2, rec2)" by (simp add: narrowed_def)
      with False x show ?thesis by auto
    next
      case nar: False
      then have n: "narrowed c rec0 (hs2, cl2, rec2) = (False, c, rec0)" by (auto simp: narrowed_def)
      from nar Cons.prems have "c \<le> cl2" by auto
      with False have "\<not> (b \<and> Fin (t_rec R) < c)" by auto
      with n x show ?thesis by auto
    qed
    with ih s2 show ?thesis by simp
  qed
qed

lemma closest_of_narrow:
  assumes "c \<le> mx"
  shows "closest_of xs (False, c, rec) = narrowed c rec (closest_of xs (False, mx, rec))"
  using closest_of_narrow_gen[of False mx rec c xs rec] assms by (simp add: narrowed_def)

subsection \<open>The flag frontFacing is never written\<close>

text \<open>
  \<^verbatim>\<open>Sphere::hit\<close> leaves \<^verbatim>\<open>frontFacing\<close> as it finds it, so every record that goes through the
  loop of a list carries the value of the default-constructed \<^verbatim>\<open>tmp\<close>.
\<close>

lemma Sphere_hit_ff: "frontFacing (snd (Sphere_hit center radius mat r iv rec)) = frontFacing rec"
  by (simp add: Sphere_hit_spec Sphere_accept_def)

lemma hit_objects_ff:
  assumes "\<And>obj iv rec. obj \<in> set objs \<Longrightarrow> frontFacing rec = ff \<Longrightarrow> frontFacing (snd (hit obj r iv rec)) = ff"
    and "hit_objects objs r tmin (tmp, hs, cl, rec) = (tmp', hs', cl', rec')"
    and "frontFacing tmp = ff" and "frontFacing rec = ff"
  shows "frontFacing tmp' = ff \<and> frontFacing rec' = ff"
  using assms
proof (induction objs arbitrary: tmp hs cl rec)
  case Nil
  then show ?case by simp
next
  case (Cons obj objs)
  obtain b tmp1 where h: "hit obj r (Interval tmin cl) tmp = (b, tmp1)"
    by (cases "hit obj r (Interval tmin cl) tmp")
  have mem: "\<And>obj iv rec. obj \<in> set objs \<Longrightarrow> frontFacing rec = ff \<Longrightarrow> frontFacing (snd (hit obj r iv rec)) = ff"
    using Cons.prems(1) by (meson list.set_intros(2))
  from Cons.prems(1)[of obj tmp "Interval tmin cl"] Cons.prems(3) h have t1: "frontFacing tmp1 = ff"
    by simp
  show ?case
  proof (cases b)
    case True
    with h Cons.prems(2)
    have "hit_objects objs r tmin (tmp1, True, Fin (t_rec tmp1), tmp1) = (tmp', hs', cl', rec')"
      by simp
    from Cons.IH[OF mem this t1 t1] show ?thesis .
  next
    case False
    with h Cons.prems(2)
    have "hit_objects objs r tmin (tmp1, hs, cl, rec) = (tmp', hs', cl', rec')"
      by simp
    from Cons.IH[OF mem this t1 Cons.prems(4)] show ?thesis .
  qed
qed

lemma hit_ff_default:
  "frontFacing rec = frontFacing Hit_record_default \<Longrightarrow>
   frontFacing (snd (hit h r iv rec)) = frontFacing Hit_record_default"
proof (induction h arbitrary: r iv rec)
  case (Sphere center radius mat)
  then show ?case by (simp add: Sphere_hit_ff)
next
  case (Hittable_list objs)
  obtain tmp1 hs1 cl1 rec1 where
    l: "hit_objects objs r (min_b iv) (Hit_record_default, False, max_b iv, rec) = (tmp1, hs1, cl1, rec1)"
    by (metis prod_cases4)
  have "frontFacing tmp1 = frontFacing Hit_record_default \<and> frontFacing rec1 = frontFacing Hit_record_default"
    by (rule hit_objects_ff[OF _ l]) (use Hittable_list in auto)
  with l show ?case by simp
qed

subsection \<open>Lowering the upper bound of the interval\<close>

text \<open>
  With the upper bound lowered from \<open>mx\<close> to \<open>c\<close>, a hittable gives the answer it gives for
  \<open>mx\<close> when that is a hit below \<open>c\<close>, and a miss otherwise. For a sphere this rests on the
  smaller root being the smaller one.
\<close>

lemma spec_a_nonneg: "0 \<le> spec_a r"
  by (simp add: spec_a_def dot_def)

lemma spec_roots_le:
  "0 \<le> spec_discriminant center radius r \<Longrightarrow>
   spec_smaller_root center radius r \<le> spec_larger_root center radius r"
  unfolding spec_smaller_root_def spec_larger_root_def
  by (intro divide_right_mono spec_a_nonneg) simp

lemma Sphere_hit_narrow:
  assumes "c \<le> mx"
  shows "Sphere_hit center radius mat r (Interval tmin c) rec =
     (if fst (Sphere_hit center radius mat r (Interval tmin mx) rec) \<and>
         Fin (t_rec (snd (Sphere_hit center radius mat r (Interval tmin mx) rec))) < c
      then Sphere_hit center radius mat r (Interval tmin mx) rec else (False, rec))"
proof (cases "spec_discriminant center radius r < 0 \<or> dir r = 0")
  case True
  then show ?thesis by (simp add: Sphere_hit_spec)
next
  case False
  let ?s = "Fin (spec_smaller_root center radius r)"
  let ?l = "Fin (spec_larger_root center radius r)"
  from False have sl: "?s \<le> ?l" using spec_roots_le[of center radius r] by simp
  consider (s) "tmin < ?s" "?s < c" | (hi) "tmin < ?s" "\<not> ?s < c" | (lo) "\<not> tmin < ?s"
    by blast
  then show ?thesis
  proof cases
    case s
    with assms have "?s < mx" by (meson order_less_le_trans)
    with s False show ?thesis by (simp add: Sphere_hit_spec surrounds_def Interval_def)
  next
    case hi
    with sl have "\<not> ?l < c" by (meson order_le_less_trans)
    with hi False show ?thesis
      by (simp add: Sphere_hit_spec surrounds_def Interval_def)
  next
    case lo
    show ?thesis
    proof (cases "tmin < ?l \<and> ?l < c")
      case True
      with assms have "?l < mx" by (meson order_less_le_trans)
      with lo True False show ?thesis by (simp add: Sphere_hit_spec surrounds_def Interval_def)
    next
      case no: False
      with lo False show ?thesis
        by (auto simp add: Sphere_hit_spec surrounds_def Interval_def)
    qed
  qed
qed

text \<open>
  The loop of \<^verbatim>\<open>Hittable_list::hit\<close> computes the selection, when lowering the bound does to
  every member what the lemma after this one says.
\<close>

lemma hit_objects_closest_of:
  assumes N: "\<And>obj c rec. obj \<in> set objs \<Longrightarrow> c \<le> mx \<Longrightarrow>
      hit obj r (Interval tmin c) rec =
        (if fst (hit obj r (Interval tmin mx) rec) \<and>
            Fin (t_rec (snd (hit obj r (Interval tmin mx) rec))) < c
         then hit obj r (Interval tmin mx) rec else (False, rec))"
    and "cl \<le> mx"
    and "frontFacing tmp = frontFacing Hit_record_default"
  shows "\<exists>tmp'. hit_objects objs r tmin (tmp, hs, cl, rec) =
      (tmp', closest_of (map (\<lambda>obj. hit obj r (Interval tmin mx) Hit_record_default) objs) (hs, cl, rec))"
  using assms
proof (induction objs arbitrary: tmp hs cl rec)
  case Nil
  then show ?case by simp
next
  case (Cons obj objs)
  let ?D = Hit_record_default
  let ?full = "hit obj r (Interval tmin mx) tmp"
  let ?res = "hit obj r (Interval tmin mx) ?D"
  have memN: "\<And>obj c rec. obj \<in> set objs \<Longrightarrow> c \<le> mx \<Longrightarrow>
      hit obj r (Interval tmin c) rec =
        (if fst (hit obj r (Interval tmin mx) rec) \<and>
            Fin (t_rec (snd (hit obj r (Interval tmin mx) rec))) < c
         then hit obj r (Interval tmin mx) rec else (False, rec))"
    using Cons.prems(1) by (meson list.set_intros(2))
  have flag: "fst ?full = fst ?res"
    by (rule hit_flag_indep)
  have same: "snd ?full = snd ?res" if "fst ?full"
    using hit_same_ff[OF Cons.prems(3) that] .
  have step: "hit obj r (Interval tmin cl) tmp =
      (if fst ?full \<and> Fin (t_rec (snd ?full)) < cl then ?full else (False, tmp))"
    using Cons.prems(1)[of obj cl tmp] Cons.prems(2) by simp
  obtain b R where res: "?res = (b, R)"
    by (cases ?res)
  show ?case
  proof (cases "b \<and> Fin (t_rec R) < cl")
    case True
    with res flag same have full: "?full = (True, R)"
      by (simp add: prod_eq_iff)
    with True step have h: "hit obj r (Interval tmin cl) tmp = (True, R)"
      by simp
    from True Cons.prems(2) have le: "Fin (t_rec R) \<le> mx"
      by (meson order_less_le_trans less_imp_le)
    from hit_ff_default[of ?D obj r "Interval tmin mx"] res
    have ff: "frontFacing R = frontFacing ?D"
      by simp
    from Cons.IH[OF memN le ff, of True R] obtain tmp' where
      "hit_objects objs r tmin (R, True, Fin (t_rec R), R) =
        (tmp', closest_of (map (\<lambda>obj. hit obj r (Interval tmin mx) ?D) objs) (True, Fin (t_rec R), R))"
      by blast
    with h True res show ?thesis
      by simp
  next
    case False
    with res flag same have "\<not> (fst ?full \<and> Fin (t_rec (snd ?full)) < cl)"
      by auto
    with step have h: "hit obj r (Interval tmin cl) tmp = (False, tmp)"
      by simp
    from Cons.IH[OF memN Cons.prems(2) Cons.prems(3), of hs rec] obtain tmp' where
      "hit_objects objs r tmin (tmp, hs, cl, rec) =
        (tmp', closest_of (map (\<lambda>obj. hit obj r (Interval tmin mx) ?D) objs) (hs, cl, rec))"
      by blast
    with h False res show ?thesis
      by auto
  qed
qed

lemma Interval_eta [simp]: "Interval (min_b iv) (max_b iv) = (iv :: 'a Interval)"
  by (simp add: Interval_def)

lemma Interval_sel [simp]: "min_b (Interval lo hi) = lo" "max_b (Interval lo hi) = hi"
  by (simp_all add: Interval_def)

lemma hit_narrow:
  "c \<le> mx \<Longrightarrow>
   hit h r (Interval tmin c) rec =
     (if fst (hit h r (Interval tmin mx) rec) \<and>
         Fin (t_rec (snd (hit h r (Interval tmin mx) rec))) < c
      then hit h r (Interval tmin mx) rec else (False, rec))"
proof (induction h arbitrary: c mx rec)
  case (Sphere center radius mat)
  then show ?case
    using Sphere_hit_narrow[of c mx center radius mat r tmin rec] by simp
next
  case (Hittable_list objs)
  let ?xs = "map (\<lambda>obj. hit obj r (Interval tmin mx) Hit_record_default) objs"
  have N: "\<And>obj c rec. obj \<in> set objs \<Longrightarrow> c \<le> mx \<Longrightarrow>
      hit obj r (Interval tmin c) rec =
        (if fst (hit obj r (Interval tmin mx) rec) \<and>
            Fin (t_rec (snd (hit obj r (Interval tmin mx) rec))) < c
         then hit obj r (Interval tmin mx) rec else (False, rec))"
    using Hittable_list.IH by blast
  from hit_objects_closest_of[where tmp = Hit_record_default and hs = False and rec = rec and cl = c,
      OF N Hittable_list.prems refl]
  obtain tmp1 where
    r1: "hit_objects objs r tmin (Hit_record_default, False, c, rec) = (tmp1, closest_of ?xs (False, c, rec))"
    by auto
  from hit_objects_closest_of[where tmp = Hit_record_default and hs = False and rec = rec and cl = mx,
      OF N order_refl refl]
  obtain tmp2 where
    r2: "hit_objects objs r tmin (Hit_record_default, False, mx, rec) = (tmp2, closest_of ?xs (False, mx, rec))"
    by auto
  obtain hs2 cl2 rec2 where c2: "closest_of ?xs (False, mx, rec) = (hs2, cl2, rec2)"
    by (metis prod_cases3)
  from closest_of_narrow[OF Hittable_list.prems, of ?xs rec] c2
  have c1: "closest_of ?xs (False, c, rec) = (if hs2 \<and> Fin (t_rec rec2) < c then (True, cl2, rec2) else (False, c, rec))"
    by (simp add: narrowed_def)
  from closest_of_result[OF c2] have "\<not> hs2 \<longrightarrow> rec2 = rec"
    by auto
  with r1 r2 c1 c2 show ?case
    by simp
qed

lemma list_hit_closest_of:
  "hit (Hittable_list objs) r ray_t rec =
     (case closest_of (map (\<lambda>obj. hit obj r ray_t Hit_record_default) objs)
               (False, max_b ray_t, rec) of
        (hs, cl, rec') \<Rightarrow> (hs, rec'))"
proof -
  have N: "\<And>obj c rec. obj \<in> set objs \<Longrightarrow> c \<le> max_b ray_t \<Longrightarrow>
      hit obj r (Interval (min_b ray_t) c) rec =
        (if fst (hit obj r (Interval (min_b ray_t) (max_b ray_t)) rec) \<and>
            Fin (t_rec (snd (hit obj r (Interval (min_b ray_t) (max_b ray_t)) rec))) < c
         then hit obj r (Interval (min_b ray_t) (max_b ray_t)) rec else (False, rec))"
    by (rule hit_narrow)
  from hit_objects_closest_of[where tmp = Hit_record_default and hs = False and rec = rec
      and cl = "max_b ray_t" and mx = "max_b ray_t" and tmin = "min_b ray_t", OF N order_refl refl]
  obtain tmp' where
    "hit_objects objs r (min_b ray_t) (Hit_record_default, False, max_b ray_t, rec) =
      (tmp', closest_of (map (\<lambda>obj. hit obj r ray_t Hit_record_default) objs)
               (False, max_b ray_t, rec))"
    by auto
  then show ?thesis
    by (simp split: prod.splits)
qed

text \<open>
  C2. For every \<^verbatim>\<open>Hittable_list\<close>, ray, interval and caller's record: \<^verbatim>\<open>hit\<close> returns true
  exactly when some member, asked on its own for the same interval, returns true; when it does,
  the record forwarded is the one some member produces for that interval, and its distance is at
  most the distance of every member's own accepted hit, so no farther hit is ever returned. The
  result is the selection \<open>closest_of\<close> over the members' own results in insertion order,
  which is what narrowing the upper bound to the closest hit so far computes. The empty list
  reports no hit and leaves the record alone.
\<close>

theorem Hittable_list_hit_nearest:
  "(fst (hit (Hittable_list objs) r ray_t rec) \<longleftrightarrow>
      (\<exists>obj \<in> set objs. \<exists>rec0. fst (hit obj r ray_t rec0))) \<and>
   (fst (hit (Hittable_list objs) r ray_t rec) \<longrightarrow>
      (\<exists>obj \<in> set objs. \<exists>rec0. hit obj r ray_t rec0 = hit (Hittable_list objs) r ray_t rec) \<and>
      (\<forall>obj \<in> set objs. \<forall>rec0. fst (hit obj r ray_t rec0) \<longrightarrow>
         t_rec (snd (hit (Hittable_list objs) r ray_t rec)) \<le> t_rec (snd (hit obj r ray_t rec0)))) \<and>
   hit (Hittable_list objs) r ray_t rec =
     (case closest_of (map (\<lambda>obj. hit obj r ray_t Hit_record_default) objs)
               (False, max_b ray_t, rec) of
        (hs, cl, rec') \<Rightarrow> (hs, rec')) \<and>
   hit (Hittable_list []) r ray_t rec = (False, rec)"
proof -
  let ?D = Hit_record_default
  let ?xs = "map (\<lambda>obj. hit obj r ray_t ?D) objs"
  obtain hs cl rec' where c: "closest_of ?xs (False, max_b ray_t, rec) = (hs, cl, rec')"
    by (metis prod_cases3)
  have res: "hit (Hittable_list objs) r ray_t rec = (hs, rec')"
    using c by (simp only: list_hit_closest_of prod.case)
  note cr = closest_of_result[OF c]
  have member: "(True, R) \<in> set ?xs" if "obj \<in> set objs" "hit obj r ray_t ?D = (True, R)" for obj R
  proof -
    from that(1) have "hit obj r ray_t ?D \<in> set ?xs"
      by simp
    then show ?thesis
      by (simp only: that(2))
  qed
  have split_hit: "\<exists>R. hit obj r ray_t rec0 = (True, R)" if "fst (hit obj r ray_t rec0)" for obj rec0
    using that by (cases "hit obj r ray_t rec0") simp
  have least: "cl \<le> Fin (t_rec R)"
    if "obj \<in> set objs" "hit obj r ray_t ?D = (True, R)" for obj R
    using cr member[OF that] by blast
  have inside: "Fin (t_rec R) < max_b ray_t" if "hit obj r ray_t ?D = (True, R)" for obj R
    using hit_surrounds[OF that] by (simp add: surrounds_def)
  have hs_iff: "hs \<longleftrightarrow> (\<exists>obj \<in> set objs. fst (hit obj r ray_t ?D))"
  proof
    assume hs
    with cr have "(True, rec') \<in> set ?xs"
      by blast
    then obtain obj where "obj \<in> set objs" "hit obj r ray_t ?D = (True, rec')"
      by auto
    then show "\<exists>obj \<in> set objs. fst (hit obj r ray_t ?D)"
      by (metis fst_conv)
  next
    assume "\<exists>obj \<in> set objs. fst (hit obj r ray_t ?D)"
    then obtain obj R where o: "obj \<in> set objs" "hit obj r ray_t ?D = (True, R)"
      using split_hit by blast
    show hs
    proof (rule ccontr)
      assume "\<not> hs"
      with cr have "\<forall>R. (True, R) \<in> set ?xs \<longrightarrow> \<not> Fin (t_rec R) < max_b ray_t"
        by blast
      with member[OF o] inside[OF o(2)] show False
        by blast
    qed
  qed
  have flag: "(\<exists>obj \<in> set objs. \<exists>rec0. fst (hit obj r ray_t rec0)) \<longleftrightarrow>
      (\<exists>obj \<in> set objs. fst (hit obj r ray_t ?D))"
    using hit_flag_indep[of _ r ray_t _ ?D] by blast
  have p1: "fst (hit (Hittable_list objs) r ray_t rec) \<longleftrightarrow>
      (\<exists>obj \<in> set objs. \<exists>rec0. fst (hit obj r ray_t rec0))"
    using res hs_iff flag by simp
  have p2: "\<exists>obj \<in> set objs. \<exists>rec0. hit obj r ray_t rec0 = hit (Hittable_list objs) r ray_t rec"
    if hs
  proof -
    from that cr have "(True, rec') \<in> set ?xs"
      by blast
    then obtain obj where "obj \<in> set objs" "hit obj r ray_t ?D = (True, rec')"
      by auto
    with res that show ?thesis
      by (metis (full_types))
  qed
  have p3: "t_rec (snd (hit (Hittable_list objs) r ray_t rec)) \<le> t_rec (snd (hit obj r ray_t rec0))"
    if hs "obj \<in> set objs" "fst (hit obj r ray_t rec0)" for obj rec0
  proof -
    from that(3) have f: "fst (hit obj r ray_t ?D)"
      by (simp only: hit_flag_indep[of obj r ray_t ?D rec0])
    then obtain R where R: "hit obj r ray_t ?D = (True, R)"
      using split_hit by blast
    from \<open>hs\<close> cr have "cl = Fin (t_rec rec')"
      by blast
    with least[OF that(2) R] have "t_rec rec' \<le> t_rec R"
      by simp
    moreover have "t_rec R = t_rec (snd (hit obj r ray_t rec0))"
      using hit_t_indep[OF f, of rec0] R by simp
    moreover have "t_rec (snd (hit (Hittable_list objs) r ray_t rec)) = t_rec rec'"
      by (simp only: res snd_conv)
    ultimately show ?thesis
      by simp
  qed
  have p4: "hit (Hittable_list []) r ray_t rec = (False, rec)"
    by simp
  have p23: "fst (hit (Hittable_list objs) r ray_t rec) \<longrightarrow>
      (\<exists>obj \<in> set objs. \<exists>rec0. hit obj r ray_t rec0 = hit (Hittable_list objs) r ray_t rec) \<and>
      (\<forall>obj \<in> set objs. \<forall>rec0. fst (hit obj r ray_t rec0) \<longrightarrow>
         t_rec (snd (hit (Hittable_list objs) r ray_t rec)) \<le> t_rec (snd (hit obj r ray_t rec0)))"
  proof (intro impI conjI ballI allI)
    assume "fst (hit (Hittable_list objs) r ray_t rec)"
    with res have hs by (simp only: fst_conv)
    then show "\<exists>obj \<in> set objs. \<exists>rec0. hit obj r ray_t rec0 = hit (Hittable_list objs) r ray_t rec"
      by (rule p2)
  next
    fix obj rec0
    assume "fst (hit (Hittable_list objs) r ray_t rec)" "obj \<in> set objs" "fst (hit obj r ray_t rec0)"
    moreover from this(1) res have hs by (simp only: fst_conv)
    ultimately show "t_rec (snd (hit (Hittable_list objs) r ray_t rec)) \<le> t_rec (snd (hit obj r ray_t rec0))"
      by (intro p3)
  qed
  show ?thesis
    by (intro conjI p1 p23 p4 list_hit_closest_of)
qed

theorem Hittable_list_hit_nearest_witness:
  "fst (hit two_spheres ray_towards camera_interval Hit_record_default) \<and>
   hit near_sphere ray_towards camera_interval Hit_record_default
     = hit two_spheres ray_towards camera_interval Hit_record_default \<and>
   t_rec (snd (hit two_spheres ray_towards camera_interval Hit_record_default)) = 2 \<and>
   t_rec (snd (hit far_sphere ray_towards camera_interval Hit_record_default)) = 7 \<and>
   t_rec (snd (hit two_spheres ray_towards camera_interval Hit_record_default))
     \<le> t_rec (snd (hit far_sphere ray_towards camera_interval Hit_record_default)) \<and>
   hit (Hittable_list []) ray_towards camera_interval Hit_record_default
     = (False, Hit_record_default)"
proof -
  let ?D = Hit_record_default
  note n = Hittable_list_hit_nearest[of "[far_sphere, near_sphere]" ray_towards
      camera_interval ?D]
  have far: "fst (hit far_sphere ray_towards camera_interval ?D)"
    "t_rec (snd (hit far_sphere ray_towards camera_interval ?D)) = 7"
    by (simp_all add: hit_eval vec_eval)
  have mem: "far_sphere \<in> set [far_sphere, near_sphere]"
    by simp
  from n mem far(1) have listhit: "fst (hit (Hittable_list [far_sphere, near_sphere])
      ray_towards camera_interval ?D)"
    by blast
  with n mem far(1)
  have le: "t_rec (snd (hit (Hittable_list [far_sphere, near_sphere]) ray_towards
        camera_interval ?D))
      \<le> t_rec (snd (hit far_sphere ray_towards camera_interval ?D))"
    by blast
  from n have empty: "hit (Hittable_list []) ray_towards camera_interval ?D = (False, ?D)"
    by blast
  have vals: "hit near_sphere ray_towards camera_interval ?D
      = hit two_spheres ray_towards camera_interval ?D"
    "t_rec (snd (hit two_spheres ray_towards camera_interval ?D)) = 2"
    by (simp_all add: two_spheres_def hit_eval vec_eval)
  from listhit le empty vals far show ?thesis
    by (simp add: two_spheres_def)
qed

section \<open>Bytes and frame of setPixel\<close>

lemma clamp_intensity_range: "0 \<le> clamp intensity v \<and> clamp intensity v \<le> 0.999"
  by (simp add: clamp_def intensity_def Interval_def)

lemma channel_int_range: "0 \<le> channel_int v \<and> channel_int v \<le> 255"
proof -
  let ?k = "clamp intensity v"
  have k: "0 \<le> ?k" "?k \<le> 0.999"
    using clamp_intensity_range by auto
  then have nonneg: "0 \<le> ?k * 256"
    by simp
  moreover from k have "?k * 256 < 256"
    by simp
  ultimately have "0 \<le> \<lfloor>?k * 256\<rfloor>" "\<lfloor>?k * 256\<rfloor> < 256"
    by (simp_all add: floor_less_iff)
  with nonneg show ?thesis
    by (simp add: channel_int_def static_cast_int_def)
qed

lemma channel_int_floor: "channel_int v = \<lfloor>max 0 (min v 0.999) * 256\<rfloor>"
proof -
  have "0 \<le> clamp intensity v * 256"
    using clamp_intensity_range[of v] by simp
  then show ?thesis
    by (simp add: channel_int_def static_cast_int_def clamp_def intensity_def Interval_def)
qed

lemma uint_channel_byte: "uint (channel_byte v) = channel_int v"
  using channel_int_range[of v]
  by (simp add: channel_byte_def uint_word_of_int_eq take_bit_int_eq_self)

lemma scaled_range:
  "0 \<le> \<lfloor>max 0 (min (v :: real) 0.999) * 256\<rfloor> \<and> \<lfloor>max 0 (min v 0.999) * 256\<rfloor> \<le> 255
     \<and> max 0 (min v 0.999) * 256 < 256"
  using channel_int_range[of v] by (auto simp: channel_int_floor)

lemma store_Some:
  "store img i b = Some img' \<longleftrightarrow> 0 \<le> i \<and> i < int (length img) \<and> img' = img[nat i := b]"
  by (auto simp: store_def)

lemma setPixel_Some:
  assumes "setPixel cam img x y c = Some img'"
  defines "index \<equiv> (y * image_width cam + x) * image_channels cam"
  shows "0 \<le> index" "index + 2 < int (length img)"
    "img' = img[nat index := channel_byte (x_v c), nat (index + 1) := channel_byte (y_v c),
               nat (index + 2) := channel_byte (z_v c)]"
  using assms
  by (auto simp: setPixel_def Let_def store_Some split: if_splits option.splits)

lemma setPixel_bytes:
  assumes "setPixel cam img x y c = Some img'"
  shows "uint (img' ! nat ((y * image_width cam + x) * image_channels cam))
      = \<lfloor>max 0 (min (x_v c) 0.999) * 256\<rfloor>"
    and "uint (img' ! nat ((y * image_width cam + x) * image_channels cam + 1))
      = \<lfloor>max 0 (min (y_v c) 0.999) * 256\<rfloor>"
    and "uint (img' ! nat ((y * image_width cam + x) * image_channels cam + 2))
      = \<lfloor>max 0 (min (z_v c) 0.999) * 256\<rfloor>"
proof -
  let ?i = "(y * image_width cam + x) * image_channels cam"
  note s = setPixel_Some[OF assms]
  have d: "nat ?i \<noteq> nat (?i + 1)" "nat ?i \<noteq> nat (?i + 2)" "nat (?i + 1) \<noteq> nat (?i + 2)"
    using s(1) by auto
  have l: "nat ?i < length img" "nat (?i + 1) < length img" "nat (?i + 2) < length img"
    using s(1,2) by auto
  show "uint (img' ! nat ?i) = \<lfloor>max 0 (min (x_v c) 0.999) * 256\<rfloor>"
    using d l by (simp add: s(3) uint_channel_byte channel_int_floor)
  show "uint (img' ! nat (?i + 1)) = \<lfloor>max 0 (min (y_v c) 0.999) * 256\<rfloor>"
    using d l by (simp add: s(3) uint_channel_byte channel_int_floor)
  show "uint (img' ! nat (?i + 2)) = \<lfloor>max 0 (min (z_v c) 0.999) * 256\<rfloor>"
    using d l by (simp add: s(3) uint_channel_byte channel_int_floor)
qed

lemmas pixel_eval =
  setPixel_def int_ok_def store_def channel_byte_def channel_int_def static_cast_int_def
  clamp_def intensity_def Interval_def Let_def

text \<open>
  C7. For every colour \<open>c\<close> and every call of \<^verbatim>\<open>setPixel\<close> whose writes are inside the buffer:
  the three bytes stored, read as numbers, are the channel values clamped to \<open>[0, 0.999]\<close>,
  multiplied by 256 and truncated. For every real \<open>v\<close>, also beyond 1.0 or below 0, that
  integer lies in \<open>[0, 255]\<close> because the scaled value stays below 256, so the conversion to
  \<^verbatim>\<open>unsigned char\<close> does not wrap.
\<close>

theorem setPixel_bytes_in_range:
  assumes "setPixel cam img x y c = Some img'"
  shows "uint (img' ! nat ((y * image_width cam + x) * image_channels cam))
        = \<lfloor>max 0 (min (x_v c) 0.999) * 256\<rfloor> \<and>
      uint (img' ! nat ((y * image_width cam + x) * image_channels cam + 1))
        = \<lfloor>max 0 (min (y_v c) 0.999) * 256\<rfloor> \<and>
      uint (img' ! nat ((y * image_width cam + x) * image_channels cam + 2))
        = \<lfloor>max 0 (min (z_v c) 0.999) * 256\<rfloor> \<and>
      0 \<le> \<lfloor>max 0 (min (v :: real) 0.999) * 256\<rfloor> \<and>
      \<lfloor>max 0 (min v 0.999) * 256\<rfloor> \<le> 255 \<and>
      max 0 (min v 0.999) * 256 < 256"
  using setPixel_bytes[OF assms] scaled_range[of v] by blast

theorem setPixel_bytes_in_range_witness:
  "setPixel two_pixel_camera [7, 7, 7, 7, 7, 7] 1 0 (Vec3 2 0.5 (- 1))
     = Some [7, 7, 7, 255, 128, 0] \<and>
   \<lfloor>max 0 (min (2 :: real) 0.999) * 256\<rfloor> = uint (255 :: byte) \<and>
   \<lfloor>max 0 (min (0.5 :: real) 0.999) * 256\<rfloor> = uint (128 :: byte) \<and>
   \<lfloor>max 0 (min (- 1 :: real) 0.999) * 256\<rfloor> = uint (0 :: byte)"
proof -
  have run: "setPixel two_pixel_camera [7, 7, 7, 7, 7, 7] 1 0 (Vec3 2 0.5 (- 1))
      = Some [7, 7, 7, 255, 128, 0]"
    by (simp add: pixel_eval two_pixel_camera_def)
  from setPixel_bytes_in_range[OF run, of 0] run show ?thesis
    by (simp add: two_pixel_camera_def)
qed

subsection \<open>The frame of setPixel\<close>

lemma setPixel_frame_lemma:
  assumes "setPixel cam img x y c = Some img'"
  shows "length img' = length img"
    and "\<And>i. i < length img \<Longrightarrow> int i \<notin> pixel_indices cam x y \<Longrightarrow> img' ! i = img ! i"
proof -
  let ?i = "(y * image_width cam + x) * image_channels cam"
  note s = setPixel_Some[OF assms]
  show "length img' = length img"
    by (simp add: s(3))
  fix i
  assume "i < length img" "int i \<notin> pixel_indices cam x y"
  then have "i \<noteq> nat ?i" "i \<noteq> nat (?i + 1)" "i \<noteq> nat (?i + 2)"
    using s(1) by (auto simp: pixel_indices_def Let_def)
  then show "img' ! i = img ! i"
    by (simp add: s(3))
qed

lemma pixel_number_bound:
  assumes "0 \<le> x" "x < w" "0 \<le> y" "y < (h :: int)"
  shows "0 \<le> y * w + x" "y * w + x + 1 \<le> w * h"
proof -
  from assms have "0 \<le> y * w"
    by simp
  with assms show "0 \<le> y * w + x"
    by simp
  from assms have "(y + 1) * w \<le> h * w"
    by (intro mult_right_mono) auto
  with assms show "y * w + x + 1 \<le> w * h"
    by (simp add: algebra_simps)
qed

lemma setPixel_defined:
  assumes "0 \<le> x" "x < image_width cam" "0 \<le> y" "y < image_height cam"
    and "3 \<le> image_channels cam"
    and "int (length img) = image_width cam * image_height cam * image_channels cam"
    and "int (length img) < 2 ^ 31"
  shows "setPixel cam img x y c \<noteq> None"
proof -
  let ?w = "image_width cam" and ?h = "image_height cam" and ?ch = "image_channels cam"
  let ?k = "y * ?w + x"
  note b = pixel_number_bound[OF assms(1-4)]
  have "(?k + 1) * ?ch \<le> (?w * ?h) * ?ch"
    using b(2) assms(5) by (intro mult_right_mono) auto
  then have up: "?k * ?ch + ?ch \<le> int (length img)"
    using assms(6) by (simp add: algebra_simps)
  have lo: "0 \<le> ?k * ?ch"
    using b(1) assms(5) by simp
  have kk: "?k \<le> ?k * ?ch"
    using b(1) assms(5) by (simp add: mult_le_cancel_left1)
  have yw: "0 \<le> y * ?w" "y * ?w \<le> ?k"
    using assms(1-4) by simp_all
  have idx: "?k * ?ch + 2 < int (length img)"
    using up assms(5) by simp
  have oks: "int_ok (y * ?w)" "int_ok ?k" "int_ok (?k * ?ch)" "int_ok (?k * ?ch + 2)"
    using yw lo idx kk assms(7) by (simp_all add: int_ok_def)
  show ?thesis
    using oks lo idx by (simp add: setPixel_def Let_def store_def)
qed

lemma pixel_number_step:
  assumes "0 \<le> x" "x < w" "0 \<le> x'" "x' < (w :: int)" "y < y'"
  shows "y * w + x + 1 \<le> y' * w + x'"
proof -
  from assms have "(y + 1) * w \<le> y' * w"
    by (intro mult_right_mono) auto
  with assms show ?thesis
    by (simp add: algebra_simps)
qed

lemma pixel_indices_disjoint:
  assumes "3 \<le> image_channels cam"
    and "0 \<le> x" "x < image_width cam" "0 \<le> y" "y < image_height cam"
    and "0 \<le> x'" "x' < image_width cam" "0 \<le> y'" "y' < image_height cam"
    and "(x', y') \<noteq> (x, y)"
  shows "pixel_indices cam x' y' \<inter> pixel_indices cam x y = {}"
proof -
  let ?w = "image_width cam" and ?ch = "image_channels cam"
  let ?k = "y * ?w + x" and ?k' = "y' * ?w + x'"
  have step: "a * ?ch + 3 \<le> b * ?ch" if "a + 1 \<le> b" for a b :: int
  proof -
    from that assms(1) have "(a + 1) * ?ch \<le> b * ?ch"
      by (intro mult_right_mono) auto
    with assms(1) show ?thesis
      by (simp add: algebra_simps)
  qed
  consider "?k + 1 \<le> ?k'" | "?k' + 1 \<le> ?k"
  proof (cases "y = y'")
    case True
    with assms(10) have "x \<noteq> x'"
      by auto
    with True that show ?thesis
      by (cases "x < x'") auto
  next
    case False
    then consider "y < y'" | "y' < y"
      by linarith
    then show ?thesis
    proof cases
      case 1
      from pixel_number_step[OF assms(2,3,6,7) 1] that show ?thesis
        by blast
    next
      case 2
      from pixel_number_step[OF assms(6,7,2,3) 2] that show ?thesis
        by blast
    qed
  qed
  then show ?thesis
  proof cases
    case 1
    from step[OF 1] show ?thesis
      by (auto simp: pixel_indices_def Let_def)
  next
    case 2
    from step[OF 2] show ?thesis
      by (auto simp: pixel_indices_def Let_def)
  qed
qed

text \<open>
  C10 as stated fails where it concludes that distinct pixels write disjoint index ranges: the
  ranges are three bytes long whatever \<^verbatim>\<open>image_channels\<close> is. With the dimensions of a
  default-constructed camera (one channel) the pixels \<open>(0, 0)\<close> and \<open>(1, 0)\<close> are both inside
  the image and share the indices 1 and 2, and the call for \<open>(1, 0)\<close> overwrites the byte at
  index 1 and 2.
\<close>

theorem setPixel_ranges_overlap:
  "(0 :: int) \<le> 0 \<and> 0 < image_width default_dims_camera \<and>
   (0 :: int) \<le> 1 \<and> 1 < image_width default_dims_camera \<and>
   0 < image_height default_dims_camera \<and>
   pixel_indices default_dims_camera 0 0 \<inter> pixel_indices default_dims_camera 1 0 = {1, 2} \<and>
   setPixel default_dims_camera [9, 9, 9, 9] 1 0 (Vec3 0 0 0) = Some [9, 0, 0, 0]"
  by (auto simp: default_dims_camera_def pixel_indices_def pixel_eval)

text \<open>
  C10, amended. A call of \<^verbatim>\<open>setPixel\<close> whose writes are inside the buffer keeps the length of
  the buffer, stores the three channel bytes at the indices
  \<open>(y \<sqdot> image_width + x) \<sqdot> image_channels + 0, 1, 2\<close> and leaves every other element unchanged.
  The writes are inside the buffer for every pixel \<open>0 \<le> x < image_width\<close>,
  \<open>0 \<le> y < image_height\<close> when \<^verbatim>\<open>image_channels\<close> is at least 3 and the buffer holds
  \<open>image_width \<sqdot> image_height \<sqdot> image_channels\<close> bytes (fewer than \<open>2\<^sup>3\<^sup>1\<close>). With at least 3
  channels, two distinct pixels of the image write disjoint index ranges.
\<close>

theorem setPixel_frame:
  "(setPixel cam img x y c = Some img' \<longrightarrow>
      length img' = length img \<and>
      img' ! nat ((y * image_width cam + x) * image_channels cam) = channel_byte (x_v c) \<and>
      img' ! nat ((y * image_width cam + x) * image_channels cam + 1) = channel_byte (y_v c) \<and>
      img' ! nat ((y * image_width cam + x) * image_channels cam + 2) = channel_byte (z_v c) \<and>
      (\<forall>i < length img. int i \<notin> pixel_indices cam x y \<longrightarrow> img' ! i = img ! i)) \<and>
   (0 \<le> x \<and> x < image_width cam \<and> 0 \<le> y \<and> y < image_height cam \<and>
    3 \<le> image_channels cam \<and>
    int (length img) = image_width cam * image_height cam * image_channels cam \<and>
    int (length img) < 2 ^ 31 \<longrightarrow>
      setPixel cam img x y c \<noteq> None) \<and>
   (3 \<le> image_channels cam \<and>
    0 \<le> x \<and> x < image_width cam \<and> 0 \<le> y \<and> y < image_height cam \<and>
    0 \<le> x' \<and> x' < image_width cam \<and> 0 \<le> y' \<and> y' < image_height cam \<and>
    (x', y') \<noteq> (x, y) \<longrightarrow>
      pixel_indices cam x' y' \<inter> pixel_indices cam x y = {})"
proof (intro conjI impI)
  assume run: "setPixel cam img x y c = Some img'"
  let ?i = "(y * image_width cam + x) * image_channels cam"
  note s = setPixel_Some[OF run]
  have d: "nat ?i \<noteq> nat (?i + 1)" "nat ?i \<noteq> nat (?i + 2)" "nat (?i + 1) \<noteq> nat (?i + 2)"
    using s(1) by auto
  have l: "nat ?i < length img" "nat (?i + 1) < length img" "nat (?i + 2) < length img"
    using s(1,2) by auto
  show "length img' = length img"
    by (rule setPixel_frame_lemma(1)[OF run])
  show "img' ! nat ?i = channel_byte (x_v c)"
    using d l by (simp add: s(3))
  show "img' ! nat (?i + 1) = channel_byte (y_v c)"
    using d l by (simp add: s(3))
  show "img' ! nat (?i + 2) = channel_byte (z_v c)"
    using d l by (simp add: s(3))
  show "\<forall>i < length img. int i \<notin> pixel_indices cam x y \<longrightarrow> img' ! i = img ! i"
    using setPixel_frame_lemma(2)[OF run] by blast
next
  assume "0 \<le> x \<and> x < image_width cam \<and> 0 \<le> y \<and> y < image_height cam \<and>
    3 \<le> image_channels cam \<and>
    int (length img) = image_width cam * image_height cam * image_channels cam \<and>
    int (length img) < 2 ^ 31"
  then show "setPixel cam img x y c \<noteq> None"
    by (intro setPixel_defined) auto
next
  assume "3 \<le> image_channels cam \<and>
    0 \<le> x \<and> x < image_width cam \<and> 0 \<le> y \<and> y < image_height cam \<and>
    0 \<le> x' \<and> x' < image_width cam \<and> 0 \<le> y' \<and> y' < image_height cam \<and>
    (x', y') \<noteq> (x, y)"
  then show "pixel_indices cam x' y' \<inter> pixel_indices cam x y = {}"
    by (intro pixel_indices_disjoint) auto
qed

theorem setPixel_frame_witness:
  "setPixel two_pixel_camera [7, 7, 7, 7, 7, 7] 1 0 (Vec3 2 0.5 (- 1))
     = Some [7, 7, 7, 255, 128, 0] \<and>
   int (length [7 :: byte, 7, 7, 7, 7, 7])
     = image_width two_pixel_camera * image_height two_pixel_camera
         * image_channels two_pixel_camera \<and>
   3 \<le> image_channels two_pixel_camera \<and>
   pixel_indices two_pixel_camera 1 0 = {3, 4, 5} \<and>
   pixel_indices two_pixel_camera 0 0 = {0, 1, 2} \<and>
   pixel_indices two_pixel_camera 0 0 \<inter> pixel_indices two_pixel_camera 1 0 = {}"
proof -
  let ?img = "[7 :: byte, 7, 7, 7, 7, 7]"
  let ?c = "Vec3 2 0.5 (- 1)"
  note f = setPixel_frame[of two_pixel_camera ?img 1 0 ?c _ 0 0]
  have dims: "(0 :: int) \<le> 1" "1 < image_width two_pixel_camera"
    "(0 :: int) \<le> 0" "0 < image_height two_pixel_camera" "0 < image_width two_pixel_camera"
    "3 \<le> image_channels two_pixel_camera"
    "int (length ?img) = image_width two_pixel_camera * image_height two_pixel_camera
       * image_channels two_pixel_camera"
    "int (length ?img) < 2 ^ 31" "(0 :: int, 0 :: int) \<noteq> (1, 0)"
    by (simp_all add: two_pixel_camera_def)
  from f dims have "setPixel two_pixel_camera ?img 1 0 ?c \<noteq> None"
    by blast
  then obtain img' where run: "setPixel two_pixel_camera ?img 1 0 ?c = Some img'"
    by blast
  with f[of img'] have len: "length img' = length ?img"
    and vals: "img' ! nat ((0 * image_width two_pixel_camera + 1)
                 * image_channels two_pixel_camera) = channel_byte (x_v ?c)"
      "img' ! nat ((0 * image_width two_pixel_camera + 1)
                 * image_channels two_pixel_camera + 1) = channel_byte (y_v ?c)"
      "img' ! nat ((0 * image_width two_pixel_camera + 1)
                 * image_channels two_pixel_camera + 2) = channel_byte (z_v ?c)"
    and rest: "\<forall>i < length ?img. int i \<notin> pixel_indices two_pixel_camera 1 0
                 \<longrightarrow> img' ! i = ?img ! i"
    by blast+
  have ind: "pixel_indices two_pixel_camera 1 0 = {3, 4, 5}"
    "pixel_indices two_pixel_camera 0 0 = {0, 1, 2}"
    by (auto simp: pixel_indices_def two_pixel_camera_def)
  from rest ind have "img' ! 0 = 7" "img' ! 1 = 7" "img' ! 2 = 7"
    by simp_all
  moreover from vals have "img' ! 3 = 255" "img' ! 4 = 128" "img' ! 5 = 0"
    by (simp_all add: two_pixel_camera_def pixel_eval)
  ultimately have "img' = [7, 7, 7, 255, 128, 0]"
    using len by (intro nth_equalityI) (auto simp: less_Suc_eq numeral_eq_Suc)
  moreover from f dims
  have "pixel_indices two_pixel_camera 0 0 \<inter> pixel_indices two_pixel_camera 1 0 = {}"
    by blast
  ultimately show ?thesis
    using run ind dims by simp
qed

section \<open>Camera::ray_color on materials that do not continue\<close>

text \<open>One step of \<^verbatim>\<open>ray_color\<close> after a hit, by the class of the material.\<close>

lemma ray_color_hit:
  assumes "0 < depth"
    and "hit world r (Interval (Fin 0.0001) inf_d) Hit_record_default = (True, rec)"
    and "mat_ptr rec = Some m"
  shows "ray_color L r world depth (n, g) =
     (case m of
        Constant color \<Rightarrow> Some (color, n + 1, g)
      | ShowNormals albedo \<Rightarrow>
          (case scatter L (ShowNormals albedo) r rec 0 Ray_default g of
             (b, attenuation, scattered, g') \<Rightarrow> Some (attenuation, n + 1, g'))
      | _ \<Rightarrow>
          (case scatter L m r rec 0 Ray_default g of
             (b, attenuation, scattered, g') \<Rightarrow>
               if b then
                 (if length_v (dir scattered) = 0 then Some (attenuation, n + 1, g')
                  else
                    (case ray_color L scattered world (depth - 1) (n + 1, g') of
                       None \<Rightarrow> None
                     | Some (c, st) \<Rightarrow> Some (attenuation * c, st)))
               else Some (background r, n + 1, g')))"
  using assms by (subst ray_color.simps) (simp split: material.splits)

text \<open>
  C5 as stated fails for the base class \<^verbatim>\<open>Material\<close>, whose \<^verbatim>\<open>scatter\<close> returns false and assigns
  nothing: for a unit sphere of that material, hit at depth 1 by a ray along \<open>-z\<close>, \<^verbatim>\<open>scatter\<close>
  leaves the attenuation at its initial value \<open>(0, 0, 0)\<close>, and \<^verbatim>\<open>ray_color\<close> returns the gradient
  colour \<open>(0.75, 0.85, 1)\<close> instead.
\<close>

theorem ray_color_base_material_gradient:
  "hit plain_sphere ray_towards (Interval (Fin 0.0001) inf_d) Hit_record_default =
     (True, \<lparr>p_rec = Vec3 0 0 1, normal = Vec3 0 0 1, t_rec = 2, frontFacing = False,
             mat_ptr = Some Material\<rparr>) \<and>
   scatter no_random Material ray_towards
     \<lparr>p_rec = Vec3 0 0 1, normal = Vec3 0 0 1, t_rec = 2, frontFacing = False,
      mat_ptr = Some Material\<rparr> 0 Ray_default () = (False, Vec3 0 0 0, Ray_default, ()) \<and>
   ray_color no_random ray_towards plain_sphere 1 (0, ()) = Some (Vec3 0.75 0.85 1, 1, ())"
  by (simp add: plain_sphere_def hit_eval vec_eval background_def)

text \<open>
  C5, amended. For every hit at depth \<open>\<ge> 1\<close> whose material is a \<^verbatim>\<open>Constant\<close> or a
  \<^verbatim>\<open>ShowNormals\<close>, the two classes that \<^verbatim>\<open>ray_color\<close> tests for: \<^verbatim>\<open>scatter\<close> returns false and
  \<^verbatim>\<open>ray_color\<close> returns the attenuation of that \<^verbatim>\<open>scatter\<close>; the ray counter has advanced by
  exactly one and the generator is untouched, so no recursive call was made. For the base class
  \<^verbatim>\<open>Material\<close>, whose \<^verbatim>\<open>scatter\<close> returns false as well, \<^verbatim>\<open>ray_color\<close> returns the background
  gradient of the ray, again without a recursive call.
\<close>

theorem ray_color_no_continue:
  assumes "0 < depth"
    and "hit world r (Interval (Fin 0.0001) inf_d) Hit_record_default = (True, rec)"
    and "mat_ptr rec = Some m"
  shows "(m = Constant col \<or> m = ShowNormals alb \<longrightarrow>
            fst (scatter L m r rec 0 Ray_default g) = False \<and>
            ray_color L r world depth (n, g)
              = Some (fst (snd (scatter L m r rec 0 Ray_default g)), n + 1, g)) \<and>
         (m = Material \<longrightarrow>
            fst (scatter L m r rec 0 Ray_default g) = False \<and>
            ray_color L r world depth (n, g) = Some (background r, n + 1, g))"
  using ray_color_hit[OF assms, of L n g] by auto

theorem ray_color_no_continue_witness:
  "ray_color no_random ray_towards two_spheres 16 (0, ()) = Some (Vec3 1 0 0, 1, ()) \<and>
   ray_color no_random ray_towards far_sphere 16 (0, ()) = Some (Vec3 0.5 0.5 1, 1, ()) \<and>
   ray_color no_random ray_towards plain_sphere 16 (0, ())
     = Some (background ray_towards, 1, ())"
proof -
  let ?iv = "Interval (Fin 0.0001) inf_d"
  let ?near = "Sphere_accept (Vec3 0 0 0) 1 (Constant (Vec3 1 0 0)) ray_towards 2
      Hit_record_default"
  let ?far = "Sphere_accept (Vec3 0 0 (- 5)) 1 (ShowNormals (Vec3 0 0 0)) ray_towards 7
      Hit_record_default"
  let ?plain = "Sphere_accept (Vec3 0 0 0) 1 Material ray_towards 2 Hit_record_default"
  have h1: "hit two_spheres ray_towards ?iv Hit_record_default = (True, ?near)"
    by (simp add: two_spheres_def hit_eval vec_eval)
  have h2: "hit far_sphere ray_towards ?iv Hit_record_default = (True, ?far)"
    by (simp add: hit_eval vec_eval)
  have h3: "hit plain_sphere ray_towards ?iv Hit_record_default = (True, ?plain)"
    by (simp add: plain_sphere_def hit_eval vec_eval)
  have m: "mat_ptr ?near = Some (Constant (Vec3 1 0 0))"
    "mat_ptr ?far = Some (ShowNormals (Vec3 0 0 0))" "mat_ptr ?plain = Some Material"
    by (simp_all add: Sphere_accept_def)
  have d: "(0 :: int) < 16"
    by simp
  from ray_color_no_continue[OF d h1 m(1), of "Vec3 1 0 0" _ no_random "()" 0]
  have "ray_color no_random ray_towards two_spheres 16 (0, ()) = Some (Vec3 1 0 0, 1, ())"
    by simp
  moreover
  from ray_color_no_continue[OF d h2 m(2), of _ "Vec3 0 0 0" no_random "()" 0]
  have "ray_color no_random ray_towards far_sphere 16 (0, ()) = Some (Vec3 0.5 0.5 1, 1, ())"
    by (simp add: Sphere_accept_def vec_eval ray_towards_def)
  moreover
  from ray_color_no_continue[OF d h3 m(3), of _ _ no_random "()" 0]
  have "ray_color no_random ray_towards plain_sphere 16 (0, ())
      = Some (background ray_towards, 1, ())"
    by simp
  ultimately show ?thesis
    by simp
qed

section \<open>Outcomes at the CUDA boundary\<close>

text \<open>
  C6 as stated fails on both counts. On a device whose first allocation fails the host function
  returns \<open>0\<close> and leaves the buffer as it was, and \<^verbatim>\<open>main\<close> still hands that buffer (all
  zeros, never rendered) to the image writer: nothing between the call and the writer looks at
  the returned value. On a device where every call succeeds the returned value is \<open>1\<close>,
  whatever the image size and the number of samples are, so it is not a count of rays.
\<close>

theorem renderPixelsCUDA_failure_still_written:
  "renderPixelsCUDA failing_device [0, 0, 0, 0, 0, 0] 2 1 1 16 = (0, [0, 0, 0, 0, 0, 0]) \<and>
   main_cuda failing_device two_pixel_camera = ([0, 0, 0, 0, 0, 0], 0) \<and>
   fst (renderPixelsCUDA working_device [0, 0, 0, 0, 0, 0] 2 1 1 16) = 1 \<and>
   fst (renderPixelsCUDA working_device [0, 0, 0, 0, 0, 0] 2 1 100 16) = 1"
  by (simp add: renderPixelsCUDA_def Camera_renderPixelsCUDA_def main_cuda_def
      failing_device_def working_device_def two_pixel_camera_def CHANNELS_def numeral_eq_Suc)

text \<open>
  C6, amended. \<^verbatim>\<open>renderPixelsCUDA\<close> returns \<open>1\<close>, with the buffer that the copy from the device
  left, when both allocations, both kernel launches and the copy succeed; it returns \<open>0\<close> when
  one of them fails, and the host buffer is untouched when the failure comes before the copy.
  \<^verbatim>\<open>Camera::renderPixelsCUDA\<close> adds the returned value to \<^verbatim>\<open>n_rays\<close> in either case and passes
  the buffer on as it is; \<^verbatim>\<open>main\<close> hands that buffer to the image writer and prints the counter,
  in either case.
\<close>

theorem renderPixelsCUDA_outcomes:
  "(malloc_image_ok dev \<and> malloc_rand_ok dev \<and> init_launch_ok dev \<and> kernel_launch_ok dev \<and>
    memcpy_ok dev \<longrightarrow>
      renderPixelsCUDA dev img w h s d = (1, host_after_memcpy dev)) \<and>
   (\<not> (malloc_image_ok dev \<and> malloc_rand_ok dev \<and> init_launch_ok dev \<and>
        kernel_launch_ok dev \<and> memcpy_ok dev) \<longrightarrow>
      fst (renderPixelsCUDA dev img w h s d) = 0) \<and>
   (\<not> (malloc_image_ok dev \<and> malloc_rand_ok dev \<and> init_launch_ok dev \<and>
        kernel_launch_ok dev) \<longrightarrow>
      snd (renderPixelsCUDA dev img w h s d) = img) \<and>
   Camera_renderPixelsCUDA dev cam img =
     (cam\<lparr>n_rays := n_rays cam +
         fst (renderPixelsCUDA dev img (image_width cam) (image_height cam)
                (samples_per_pixel cam) (max_depth cam))\<rparr>,
      snd (renderPixelsCUDA dev img (image_width cam) (image_height cam)
             (samples_per_pixel cam) (max_depth cam))) \<and>
   main_cuda dev cam =
     (snd (Camera_renderPixelsCUDA dev cam
             (replicate (nat (image_width cam * image_height cam * CHANNELS)) 0)),
      n_rays (fst (Camera_renderPixelsCUDA dev cam
             (replicate (nat (image_width cam * image_height cam * CHANNELS)) 0))))"
  by (auto simp: renderPixelsCUDA_def Camera_renderPixelsCUDA_def main_cuda_def Let_def
      split: prod.splits)

theorem renderPixelsCUDA_outcomes_witness:
  "renderPixelsCUDA working_device [0, 0, 0, 0, 0, 0] 2 1 1 16 = (1, [1, 2, 3, 4, 5, 6]) \<and>
   fst (renderPixelsCUDA failing_device [0, 0, 0, 0, 0, 0] 2 1 1 16) = 0 \<and>
   snd (renderPixelsCUDA failing_device [0, 0, 0, 0, 0, 0] 2 1 1 16) = [0, 0, 0, 0, 0, 0] \<and>
   n_rays (fst (Camera_renderPixelsCUDA working_device two_pixel_camera [0, 0, 0, 0, 0, 0]))
     = 1"
proof -
  let ?img = "[0 :: byte, 0, 0, 0, 0, 0]"
  have ok: "malloc_image_ok working_device \<and> malloc_rand_ok working_device \<and>
      init_launch_ok working_device \<and> kernel_launch_ok working_device \<and>
      memcpy_ok working_device"
    and out: "host_after_memcpy working_device = [1, 2, 3, 4, 5, 6]"
    by (simp_all add: working_device_def)
  have bad: "\<not> (malloc_image_ok failing_device \<and> malloc_rand_ok failing_device \<and>
      init_launch_ok failing_device \<and> kernel_launch_ok failing_device)"
    by (simp add: failing_device_def)
  note w = renderPixelsCUDA_outcomes[of working_device ?img 2 1 1 16 two_pixel_camera]
  note f = renderPixelsCUDA_outcomes[of failing_device ?img 2 1 1 16 two_pixel_camera]
  from w ok out have r1: "renderPixelsCUDA working_device ?img 2 1 1 16 = (1, [1, 2, 3, 4, 5, 6])"
    by simp
  from f bad have r2: "fst (renderPixelsCUDA failing_device ?img 2 1 1 16) = 0"
    "snd (renderPixelsCUDA failing_device ?img 2 1 1 16) = ?img"
    by blast+
  from w have "Camera_renderPixelsCUDA working_device two_pixel_camera ?img =
      (two_pixel_camera\<lparr>n_rays := n_rays two_pixel_camera +
          fst (renderPixelsCUDA working_device ?img (image_width two_pixel_camera)
                (image_height two_pixel_camera) (samples_per_pixel two_pixel_camera)
                (max_depth two_pixel_camera))\<rparr>,
       snd (renderPixelsCUDA working_device ?img (image_width two_pixel_camera)
                (image_height two_pixel_camera) (samples_per_pixel two_pixel_camera)
                (max_depth two_pixel_camera)))"
    by blast
  then have "n_rays (fst (Camera_renderPixelsCUDA working_device two_pixel_camera ?img)) = 1"
    using r1 by (simp add: two_pixel_camera_def)
  with r1 r2 show ?thesis
    by simp
qed

section \<open>Sequential and multi-threaded rendering\<close>

subsection \<open>A pixel is rendered whatever the counter is\<close>

text \<open>
  A hit always carries a material, so \<^verbatim>\<open>ray_color\<close> and \<^verbatim>\<open>computePixelColor\<close> return on every
  input, and the value of \<^verbatim>\<open>n_rays\<close> they start from only moves the value they end with: the
  colour and the generator left behind do not depend on it.
\<close>

lemma shift_simps [simp]: "shift m None = None" "shift m (Some (c, k, g)) = Some (c, k + m, g)"
  by (simp_all add: shift_def)

lemma hit_mat_ptr: "hit h r iv rec = (True, rec') \<Longrightarrow> mat_ptr rec' \<noteq> None"
proof (induction h arbitrary: r iv rec rec')
  case (Sphere center radius mat)
  then show ?case using Sphere_hit_fields(3)[of center radius mat r iv rec rec'] by simp
next
  case (Hittable_list objs)
  let ?xs = "map (\<lambda>obj. hit obj r iv Hit_record_default) objs"
  obtain hs cl rec1 where c: "closest_of ?xs (False, max_b iv, rec) = (hs, cl, rec1)"
    by (metis prod_cases3)
  from Hittable_list.prems[unfolded list_hit_closest_of] c have e: "hs" "rec1 = rec'"
    by simp_all
  with closest_of_result[OF c] have "(True, rec') \<in> set ?xs"
    by blast
  then obtain obj where "obj \<in> set objs" "hit obj r iv Hit_record_default = (True, rec')"
    by auto
  then show ?case by (rule Hittable_list.IH)
qed

lemma ray_color_shift:
  "ray_color L r world depth (n + m, g) = shift m (ray_color L r world depth (n, g))"
proof (induction "nat depth" arbitrary: depth r n g)
  case 0
  then show ?case by simp
next
  case (Suc k)
  then have pos: "\<not> depth \<le> 0" and k: "k = nat (depth - 1)" by auto
  note ih = Suc.hyps(1)[OF k]
  obtain b rec where h: "hit world r (Interval (Fin 0.0001) inf_d) Hit_record_default = (b, rec)"
    by (cases "hit world r (Interval (Fin 0.0001) inf_d) Hit_record_default")
  show ?case
  proof (cases b)
    case False
    with pos h show ?thesis by simp
  next
    case True
    show ?thesis
    proof (cases "mat_ptr rec")
      case None
      with pos h True show ?thesis by simp
    next
      case (Some mat)
      show ?thesis
      proof (cases mat)
        case Material
        with pos h True Some show ?thesis by simp
      next
        case (Constant c)
        with pos h True Some show ?thesis by simp
      next
        case (ShowNormals c)
        with pos h True Some show ?thesis by simp
      next
        case (Lambertian c)
        obtain b2 att sc g' where s: "scatter L (Lambertian c) r rec 0 Ray_default g = (b2, att, sc, g')"
          by (metis prod_cases4)
        have "ray_color L sc world (depth - 1) (n + 1 + m, g') = shift m (ray_color L sc world (depth - 1) (n + 1, g'))"
          by (rule ih)
        then have ih': "ray_color L sc world (depth - 1) (n + m + 1, g') = shift m (ray_color L sc world (depth - 1) (n + 1, g'))"
          by (simp add: add.commute add.left_commute)
        show ?thesis
          unfolding ray_color.simps[of L r world depth "n + m" g]
            ray_color.simps[of L r world depth n g]
          using pos h True Some Lambertian s ih'
          by (simp del: ray_color.simps scatter.simps split: option.splits)
      qed
    qed
  qed
qed

lemma ray_color_total: "ray_color L r world depth (n, g) \<noteq> None"
proof (induction "nat depth" arbitrary: depth r n g)
  case 0
  then show ?case by simp
next
  case (Suc k)
  then have pos: "\<not> depth \<le> 0" and k: "k = nat (depth - 1)" by auto
  note ih = Suc.hyps(1)[OF k]
  obtain b rec where h: "hit world r (Interval (Fin 0.0001) inf_d) Hit_record_default = (b, rec)"
    by (cases "hit world r (Interval (Fin 0.0001) inf_d) Hit_record_default")
  show ?case
  proof (cases b)
    case False
    with pos h show ?thesis by simp
  next
    case True
    with h have "hit world r (Interval (Fin 0.0001) inf_d) Hit_record_default = (True, rec)"
      by simp
    from hit_mat_ptr[OF this] obtain mat where Some: "mat_ptr rec = Some mat"
      by auto
    show ?thesis
    proof (cases mat)
      case Material
      with pos h True Some show ?thesis by simp
    next
      case (Constant c)
      with pos h True Some show ?thesis by simp
    next
      case (ShowNormals c)
      with pos h True Some show ?thesis by simp
    next
      case (Lambertian c)
      obtain b2 att sc g' where s: "scatter L (Lambertian c) r rec 0 Ray_default g = (b2, att, sc, g')"
        by (metis prod_cases4)
      have "ray_color L sc world (depth - 1) (n + 1, g') \<noteq> None"
        by (rule ih)
      then show ?thesis
        unfolding ray_color.simps[of L r world depth n g]
        using pos h True Some Lambertian s
        by (auto simp del: ray_color.simps scatter.simps split: option.splits)
    qed
  qed
qed

lemma sample_loop_shift:
  "sample_loop L cam scene x y k (pc, n + m, g) = shift m (sample_loop L cam scene x y k (pc, n, g))"
proof (induction k arbitrary: pc n g)
  case 0
  then show ?case by simp
next
  case (Suc k)
  obtain u1 g1 where r1: "random_double L g = (u1, g1)" by (cases "random_double L g")
  obtain u2 g2 where r2: "random_double L g1 = (u2, g2)" by (cases "random_double L g1")
  let ?ray = "\<lparr>orig = camera_center cam,
      dir = unit_vector (pixel00_loc cam + smult (of_int x + (u1 - 0.5)) (pixel_delta_u cam)
        + smult (of_int y + (u2 - 0.5)) (pixel_delta_v cam) - camera_center cam)\<rparr>"
  obtain s n' g' where rc: "ray_color L ?ray scene (max_depth cam) (n, g2) = Some (s, n', g')"
    using ray_color_total[of L ?ray scene "max_depth cam" n g2] by auto
  then have rc2: "ray_color L ?ray scene (max_depth cam) (n + m, g2) = Some (s, n' + m, g')"
    by (simp add: ray_color_shift del: ray_color.simps)
  show ?case
    using r1 r2 rc rc2 Suc.IH[of "pc + s" n' g'] by (simp add: Let_def del: ray_color.simps)
qed

lemma sample_loop_total: "sample_loop L cam scene x y k (pc, n, g) \<noteq> None"
proof (induction k arbitrary: pc n g)
  case 0
  then show ?case by simp
next
  case (Suc k)
  obtain u1 g1 where r1: "random_double L g = (u1, g1)" by (cases "random_double L g")
  obtain u2 g2 where r2: "random_double L g1 = (u2, g2)" by (cases "random_double L g1")
  let ?ray = "\<lparr>orig = camera_center cam,
      dir = unit_vector (pixel00_loc cam + smult (of_int x + (u1 - 0.5)) (pixel_delta_u cam)
        + smult (of_int y + (u2 - 0.5)) (pixel_delta_v cam) - camera_center cam)\<rparr>"
  obtain s n' g' where rc: "ray_color L ?ray scene (max_depth cam) (n, g2) = Some (s, n', g')"
    using ray_color_total[of L ?ray scene "max_depth cam" n g2] by auto
  show ?case
    using r1 r2 rc Suc.IH[of "pc + s" n' g'] by (simp add: Let_def del: ray_color.simps)
qed

lemma computePixelColor_shift:
  "computePixelColor L cam scene x y (n + m, g) = shift m (computePixelColor L cam scene x y (n, g))"
  by (simp add: computePixelColor_def sample_loop_shift shift_def split: option.splits)

lemma computePixelColor_total: "computePixelColor L cam scene x y (n, g) \<noteq> None"
  using sample_loop_total[of L cam scene x y "nat (samples_per_pixel cam)" "Vec3 0 0 0" n g]
  by (auto simp: computePixelColor_def split: option.splits)

lemma computePixelColor_eq:
  "\<exists>k. computePixelColor L cam scene x y (n, g) =
     Some (pixel_colour L cam scene (x, y) g, k, pixel_next L cam scene (x, y) g)"
proof -
  obtain c k g' where e: "computePixelColor L cam scene x y (0, g) = Some (c, k, g')"
    using computePixelColor_total[of L cam scene x y 0 g] by auto
  from computePixelColor_shift[of L cam scene x y 0 n g] e
  have "computePixelColor L cam scene x y (n, g) = Some (c, k + n, g')"
    by simp
  with e show ?thesis
    by (simp add: pixel_colour_def pixel_next_def)
qed

subsection \<open>Painting the buffer pixel by pixel\<close>

text \<open>
  With at least three channels and a buffer of \<open>image_width \<sqdot> image_height \<sqdot> image_channels\<close>
  bytes, rendering a pixel of the image that is not painted yet paints it and keeps the others.
  Two buffers painted at the same pixels from the same buffer are equal.
\<close>

lemma painted_empty: "painted L cam scene G {} img img"
  by (simp add: painted_def)

lemma painted_unique:
  assumes a: "painted L cam scene G T img0 a" and b: "painted L cam scene G T img0 b"
    and T: "\<forall>p \<in> T. in_image cam p" and ch: "3 \<le> image_channels cam"
  shows "a = b"
proof (rule nth_equalityI)
  show "length a = length b" using a b by (simp add: painted_def)
next
  fix i assume "i < length a"
  then have i: "i < length img0" using a by (simp add: painted_def)
  show "a ! i = b ! i"
  proof (cases "\<forall>p \<in> T. int i \<notin> pixel_indices cam (fst p) (snd p)")
    case True
    with a b i show ?thesis by (simp add: painted_def)
  next
    case False
    then obtain p where p: "p \<in> T" "int i \<in> pixel_indices cam (fst p) (snd p)" by blast
    let ?idx = "(snd p * image_width cam + fst p) * image_channels cam"
    from p(1) T have "in_image cam p" by blast
    then have "0 \<le> snd p * image_width cam + fst p"
      using pixel_number_bound(1)[of "fst p" "image_width cam" "snd p" "image_height cam"]
      by (simp add: in_image_def)
    with ch have idx: "0 \<le> ?idx" by simp
    from p(1) a b have sa: "shows_colour cam a p (pixel_colour L cam scene p (G p))"
      and sb: "shows_colour cam b p (pixel_colour L cam scene p (G p))"
      by (simp_all add: painted_def)
    from p(2) consider "int i = ?idx" | "int i = ?idx + 1" | "int i = ?idx + 2"
      by (auto simp: pixel_indices_def Let_def)
    then show ?thesis
    proof cases
      case 1
      then have "i = nat ?idx" by simp
      with sa sb show ?thesis by (simp add: shows_colour_def Let_def)
    next
      case 2
      then have "i = nat (?idx + 1)" by simp
      with sa sb show ?thesis by (simp add: shows_colour_def Let_def)
    next
      case 3
      then have "i = nat (?idx + 2)" by simp
      with sa sb show ?thesis by (simp add: shows_colour_def Let_def)
    qed
  qed
qed

lemma painted_step:
  assumes inv: "painted L cam scene G T img0 img"
    and p: "in_image cam p" "p \<notin> T" and T: "\<forall>q \<in> T. in_image cam q"
    and ch: "3 \<le> image_channels cam"
    and len: "int (length img0) = image_width cam * image_height cam * image_channels cam"
      "int (length img0) < 2 ^ 31"
  shows "\<exists>img' n'. render_pixel L cam scene p (img, n, G p) = Some (img', n', pixel_next L cam scene p (G p)) \<and>
           painted L cam scene G (insert p T) img0 img'"
proof -
  let ?c = "pixel_colour L cam scene p (G p)"
  obtain k where cpc: "computePixelColor L cam scene (fst p) (snd p) (n, G p) =
      Some (?c, k, pixel_next L cam scene p (G p))"
    using computePixelColor_eq[of L cam scene "fst p" "snd p" n "G p"] by auto
  have l: "length img = length img0" using inv by (simp add: painted_def)
  have "setPixel cam img (fst p) (snd p) ?c \<noteq> None"
    using p(1) ch len l by (intro setPixel_defined) (simp_all add: in_image_def)
  then obtain img' where sp: "setPixel cam img (fst p) (snd p) ?c = Some img'" by blast
  have rp: "render_pixel L cam scene p (img, n, G p) = Some (img', k, pixel_next L cam scene p (G p))"
    using cpc sp by (simp add: render_pixel_def)
  note f = setPixel_frame_lemma[OF sp]
  note s = setPixel_Some[OF sp]
  have new: "shows_colour cam img' p ?c"
  proof -
    let ?i = "(snd p * image_width cam + fst p) * image_channels cam"
    have d: "nat ?i \<noteq> nat (?i + 1)" "nat ?i \<noteq> nat (?i + 2)" "nat (?i + 1) \<noteq> nat (?i + 2)"
      using s(1) by auto
    have b: "nat ?i < length img" "nat (?i + 1) < length img" "nat (?i + 2) < length img"
      using s(1,2) by auto
    show ?thesis
      unfolding shows_colour_def Let_def using d b by (simp add: s(3))
  qed
  have old: "shows_colour cam img' q (pixel_colour L cam scene q (G q))" if "q \<in> T" for q
  proof -
    let ?j = "(snd q * image_width cam + fst q) * image_channels cam"
    from that T have q: "in_image cam q" by blast
    from that p(2) have "q \<noteq> p" by blast
    then have ne: "(fst q, snd q) \<noteq> (fst p, snd p)" by (simp add: prod_eq_iff)
    have disj: "pixel_indices cam (fst q) (snd q) \<inter> pixel_indices cam (fst p) (snd p) = {}"
      using ch p(1) q ne by (intro pixel_indices_disjoint) (simp_all add: in_image_def)
    have "0 \<le> snd q * image_width cam + fst q" "snd q * image_width cam + fst q + 1 \<le> image_width cam * image_height cam"
      using pixel_number_bound[of "fst q" "image_width cam" "snd q" "image_height cam"] q
      by (simp_all add: in_image_def)
    then have j0: "0 \<le> ?j" and "(snd q * image_width cam + fst q + 1) * image_channels cam \<le> (image_width cam * image_height cam) * image_channels cam"
      using ch by (simp_all add: mult_right_mono)
    then have j2: "?j + 2 < int (length img)"
      using len(1) l ch by (simp add: algebra_simps)
    have mem: "?j \<in> pixel_indices cam (fst q) (snd q)" "?j + 1 \<in> pixel_indices cam (fst q) (snd q)"
      "?j + 2 \<in> pixel_indices cam (fst q) (snd q)"
      by (simp_all add: pixel_indices_def Let_def)
    have keep: "img' ! nat (?j + e) = img ! nat (?j + e)" if "e \<in> {0, 1, 2}" for e
    proof -
      from that mem have "?j + e \<in> pixel_indices cam (fst q) (snd q)" by auto
      with disj have "?j + e \<notin> pixel_indices cam (fst p) (snd p)" by blast
      moreover have "nat (?j + e) < length img" "int (nat (?j + e)) = ?j + e"
        using j0 j2 that by auto
      ultimately show ?thesis using f(2)[of "nat (?j + e)"] by simp
    qed
    from inv that have "shows_colour cam img q (pixel_colour L cam scene q (G q))"
      by (simp add: painted_def)
    then show ?thesis
      using keep[of 0] keep[of 1] keep[of 2] by (simp add: shows_colour_def Let_def)
  qed
  have rest: "img' ! i = img0 ! i"
    if "i < length img0" "\<forall>q \<in> insert p T. int i \<notin> pixel_indices cam (fst q) (snd q)" for i
  proof -
    from that l have "img' ! i = img ! i" using f(2)[of i] by simp
    also from inv that have "img ! i = img0 ! i" by (simp add: painted_def)
    finally show ?thesis .
  qed
  have "painted L cam scene G (insert p T) img0 img'"
    unfolding painted_def using f(1) l new old rest by auto
  with rp show ?thesis by blast
qed

lemma run_pixels_painted:
  assumes "painted L cam scene G T img0 img"
    and "\<forall>q \<in> T. in_image cam q" and "\<forall>p \<in> set ps. in_image cam p"
    and "distinct ps" and "set ps \<inter> T = {}"
    and ch: "3 \<le> image_channels cam"
    and len: "int (length img0) = image_width cam * image_height cam * image_channels cam"
      "int (length img0) < 2 ^ 31"
    and "seeded L cam scene G ps g"
  shows "\<exists>img' n' g'. run_pixels L cam scene ps (img, n, g) = Some (img', n', g') \<and>
           painted L cam scene G (T \<union> set ps) img0 img'"
  using assms(1-5,9)
proof (induction ps arbitrary: T img n g)
  case Nil
  then show ?case by simp
next
  case (Cons p ps)
  from Cons.prems(6) have g: "g = G p" by simp
  from Cons.prems(6) have "seeded L cam scene G ps (pixel_next L cam scene p g)" by auto
  then have sd: "seeded L cam scene G ps (pixel_next L cam scene p (G p))" unfolding g .
  from Cons.prems have p: "in_image cam p" "p \<notin> T" by auto
  from painted_step[OF Cons.prems(1) p Cons.prems(2) ch len, of n]
  obtain img1 n1 where
    rp: "render_pixel L cam scene p (img, n, G p) = Some (img1, n1, pixel_next L cam scene p (G p))"
    and inv: "painted L cam scene G (insert p T) img0 img1" by blast
  have a: "\<forall>q \<in> insert p T. in_image cam q" using p(1) Cons.prems(2) by simp
  have b: "\<forall>p \<in> set ps. in_image cam p" "distinct ps" "set ps \<inter> insert p T = {}"
    using Cons.prems(3,4,5) by auto
  from Cons.IH[OF inv a b sd, of n1]
  obtain img' n' g' where
    "run_pixels L cam scene ps (img1, n1, pixel_next L cam scene p (G p)) = Some (img', n', g')"
    "painted L cam scene G (insert p T \<union> set ps) img0 img'" by blast
  then show ?case using rp g by simp
qed

lemma pending_update:
  assumes "t < length ws" "ws ! t = (p # ps, g)"
  shows "\<exists>A B. pending ws = A @ p # ps @ B \<and> pending (ws[t := (ps, g')]) = A @ ps @ B"
proof -
  have 1: "ws = take t ws @ (p # ps, g) # drop (Suc t) ws"
    using assms id_take_nth_drop by metis
  have 2: "ws[t := (ps, g')] = take t ws @ (ps, g') # drop (Suc t) ws"
    using assms(1) upd_conv_take_nth_drop by metis
  have "pending ws = pending (take t ws) @ p # ps @ pending (drop (Suc t) ws)"
    by (subst 1) (simp add: pending_def)
  moreover have "pending (ws[t := (ps, g')]) = pending (take t ws) @ ps @ pending (drop (Suc t) ws)"
    by (subst 2) (simp add: pending_def)
  ultimately show ?thesis by blast
qed

lemma step_painted:
  assumes inv: "painted L cam scene G T img0 img"
    and T: "\<forall>q \<in> T. in_image cam q" and P: "\<forall>p \<in> set (pending ws). in_image cam p"
    and d: "distinct (pending ws)" and dj: "set (pending ws) \<inter> T = {}"
    and ch: "3 \<le> image_channels cam"
    and len: "int (length img0) = image_width cam * image_height cam * image_channels cam"
      "int (length img0) < 2 ^ 31"
    and sd: "\<forall>w \<in> set ws. seeded L cam scene G (fst w) (snd w)"
  shows "\<exists>img' n' ws' T'. step L cam scene t (img, n, ws) = Some (img', n', ws') \<and>
           painted L cam scene G T' img0 img' \<and> (\<forall>q \<in> T'. in_image cam q) \<and>
           distinct (pending ws') \<and> set (pending ws') \<inter> T' = {} \<and>
           (\<forall>w \<in> set ws'. seeded L cam scene G (fst w) (snd w)) \<and>
           T' \<union> set (pending ws') = T \<union> set (pending ws)"
proof (cases "t < length ws")
  case False
  then have "step L cam scene t (img, n, ws) = Some (img, n, ws)" by simp
  with assms show ?thesis by blast
next
  case t: True
  obtain todo g where w: "ws ! t = (todo, g)" by (cases "ws ! t")
  show ?thesis
  proof (cases todo)
    case Nil
    with t w have "step L cam scene t (img, n, ws) = Some (img, n, ws)" by simp
    with assms show ?thesis by blast
  next
    case (Cons p ps)
    with w have w': "ws ! t = (p # ps, g)" by simp
    let ?g' = "pixel_next L cam scene p (G p)"
    from pending_update[OF t w', of ?g'] obtain A B where
      AB: "pending ws = A @ p # ps @ B" "pending (ws[t := (ps, ?g')]) = A @ ps @ B" by blast
    have "(p # ps, g) \<in> set ws" using t w' nth_mem by metis
    with sd have "seeded L cam scene G (p # ps) g" by fastforce
    then have g: "g = G p" and "seeded L cam scene G ps (pixel_next L cam scene p g)" by auto
    then have sps: "seeded L cam scene G ps ?g'" by blast
    have p: "in_image cam p" "p \<notin> T" using P dj AB(1) by auto
    from painted_step[OF inv p T ch len, of n]
    obtain img1 n1 where
      rp: "render_pixel L cam scene p (img, n, G p) = Some (img1, n1, ?g')"
      and inv1: "painted L cam scene G (insert p T) img0 img1" by blast
    have st: "step L cam scene t (img, n, ws) = Some (img1, n1, ws[t := (ps, ?g')])"
      using t w' g rp by simp
    have 1: "\<forall>q \<in> insert p T. in_image cam q" using p(1) T by simp
    have 2: "distinct (pending (ws[t := (ps, ?g')]))" using d AB by auto
    have 3: "set (pending (ws[t := (ps, ?g')])) \<inter> insert p T = {}" using d dj AB by auto
    have 4: "\<forall>w \<in> set (ws[t := (ps, ?g')]). seeded L cam scene G (fst w) (snd w)"
    proof
      fix w assume "w \<in> set (ws[t := (ps, ?g')])"
      then have "w \<in> insert (ps, ?g') (set ws)" using set_update_subset_insert by fast
      with sd sps show "seeded L cam scene G (fst w) (snd w)" by auto
    qed
    have 5: "insert p T \<union> set (pending (ws[t := (ps, ?g')])) = T \<union> set (pending ws)"
      using AB by auto
    from st inv1 1 2 3 4 5 show ?thesis by blast
  qed
qed

lemma run_schedule_painted:
  assumes "painted L cam scene G T img0 img"
    and "\<forall>q \<in> T. in_image cam q" and "\<forall>p \<in> set (pending ws). in_image cam p"
    and "distinct (pending ws)" and "set (pending ws) \<inter> T = {}"
    and ch: "3 \<le> image_channels cam"
    and len: "int (length img0) = image_width cam * image_height cam * image_channels cam"
      "int (length img0) < 2 ^ 31"
    and "\<forall>w \<in> set ws. seeded L cam scene G (fst w) (snd w)"
  shows "\<exists>img' n' ws' T'. run_schedule L cam scene sched (img, n, ws) = Some (img', n', ws') \<and>
           painted L cam scene G T' img0 img' \<and> (\<forall>q \<in> T'. in_image cam q) \<and>
           distinct (pending ws') \<and> set (pending ws') \<inter> T' = {} \<and>
           (\<forall>w \<in> set ws'. seeded L cam scene G (fst w) (snd w)) \<and>
           T' \<union> set (pending ws') = T \<union> set (pending ws)"
  using assms(1-5,9)
proof (induction sched arbitrary: T img n ws)
  case Nil
  then show ?case by (simp del: ex_simps) blast
next
  case (Cons t ts)
  from step_painted[OF Cons.prems(1-5) ch len Cons.prems(6), of t n]
  obtain img1 n1 ws1 T1 where
    st: "step L cam scene t (img, n, ws) = Some (img1, n1, ws1)"
    and inv: "painted L cam scene G T1 img0 img1" "\<forall>q \<in> T1. in_image cam q"
    and d: "distinct (pending ws1)" "set (pending ws1) \<inter> T1 = {}"
    and sd: "\<forall>w \<in> set ws1. seeded L cam scene G (fst w) (snd w)"
    and eq: "T1 \<union> set (pending ws1) = T \<union> set (pending ws)" by blast
  have P: "\<forall>p \<in> set (pending ws1). in_image cam p"
    using eq Cons.prems(2,3) by blast
  from Cons.IH[OF inv P d sd, of n1]
  obtain img' n' ws' T' where
    r: "run_schedule L cam scene ts (img1, n1, ws1) = Some (img', n', ws')"
    and i: "painted L cam scene G T' img0 img'" "\<forall>q \<in> T'. in_image cam q"
      "distinct (pending ws')" "set (pending ws') \<inter> T' = {}"
      "\<forall>w \<in> set ws'. seeded L cam scene G (fst w) (snd w)"
    and u: "T' \<union> set (pending ws') = T1 \<union> set (pending ws1)" by blast
  have "run_schedule L cam scene (t # ts) (img, n, ws) = Some (img', n', ws')"
    using st r by (simp del: step.simps)
  moreover have "T' \<union> set (pending ws') = T \<union> set (pending ws)"
    using u eq by simp
  ultimately show ?case using i by blast
qed

lemma drain_painted:
  assumes "painted L cam scene G T img0 img"
    and "\<forall>q \<in> T. in_image cam q" and "\<forall>p \<in> set (pending ws). in_image cam p"
    and "distinct (pending ws)" and "set (pending ws) \<inter> T = {}"
    and ch: "3 \<le> image_channels cam"
    and len: "int (length img0) = image_width cam * image_height cam * image_channels cam"
      "int (length img0) < 2 ^ 31"
    and "\<forall>w \<in> set ws. seeded L cam scene G (fst w) (snd w)"
  shows "\<exists>img' n' gs. drain L cam scene ws (img, n) = Some (img', n', gs) \<and>
           painted L cam scene G (T \<union> set (pending ws)) img0 img'"
  using assms(1-5,9)
proof (induction ws arbitrary: T img n)
  case Nil
  then show ?case by (simp add: pending_def)
next
  case (Cons w ws)
  obtain todo g where w: "w = (todo, g)" by (cases w)
  have pe: "pending ((todo, g) # ws) = todo @ pending ws" by (simp add: pending_def)
  have a: "\<forall>p \<in> set todo. in_image cam p" "distinct todo" "set todo \<inter> T = {}"
    "seeded L cam scene G todo g"
    using Cons.prems(3,4,5,6) unfolding w by (auto simp: pe)
  from run_pixels_painted[OF Cons.prems(1,2) a(1,2,3) ch len a(4), of n]
  obtain img1 n1 g1 where
    rp: "run_pixels L cam scene todo (img, n, g) = Some (img1, n1, g1)"
    and inv: "painted L cam scene G (T \<union> set todo) img0 img1" by blast
  have b: "\<forall>q \<in> T \<union> set todo. in_image cam q" "\<forall>p \<in> set (pending ws). in_image cam p"
    "distinct (pending ws)" "set (pending ws) \<inter> (T \<union> set todo) = {}"
    "\<forall>w \<in> set ws. seeded L cam scene G (fst w) (snd w)"
    using Cons.prems(2,3,4,5,6) a(1) unfolding w by (auto simp: pe)
  from Cons.IH[OF inv b, of n1]
  obtain img' n' gs where
    dr: "drain L cam scene ws (img1, n1) = Some (img', n', gs)"
    and inv': "painted L cam scene G (T \<union> set todo \<union> set (pending ws)) img0 img'" by blast
  have "drain L cam scene (w # ws) (img, n) = Some (img', n', g1 # gs)"
    using rp dr by (simp add: w)
  moreover have "T \<union> set (pending (w # ws)) = T \<union> set todo \<union> set (pending ws)"
    unfolding w by (auto simp: pe)
  ultimately show ?case using inv' by simp
qed

subsection \<open>The bands of the threads\<close>

text \<open>
  The bands of the threads, one after the other, are the rows \<open>0, \<dots>, image_height - 1\<close>: the
  threads together have to render the pixels of the sequential renderer, each once.
\<close>

lemma upto_append: "a \<le> b \<Longrightarrow> b \<le> c + 1 \<Longrightarrow> [a..b - 1] @ [b..c] = [a..c]"
proof (cases "a = b")
  case True
  then show ?thesis by simp
next
  case False
  assume "a \<le> b" "b \<le> c + 1"
  with False have "a \<le> b - 1" "b - 1 \<le> c" by simp_all
  from upto_split2[OF this] show ?thesis by simp
qed

lemma full_bands:
  assumes "0 \<le> cs"
  shows "concat (map (\<lambda>t. [int t * cs..int t * cs + cs - 1]) [0..<k]) = [0..int k * cs - 1]"
proof (induction k)
  case 0
  then show ?case by simp
next
  case (Suc k)
  have "[0..int k * cs - 1] @ [int k * cs..int k * cs + cs - 1] = [0..int k * cs + cs - 1]"
    using assms by (intro upto_append) simp_all
  with Suc show ?case by (simp add: algebra_simps)
qed

lemma bands_concat:
  assumes N: "0 < num_threads" and h: "0 \<le> image_height cam"
  shows "concat (map (\<lambda>t. band cam num_threads (int t)) [0..<nat num_threads]) = [0..image_height cam - 1]"
proof -
  define cs where "cs = image_height cam div num_threads"
  have cd: "c_div (image_height cam) num_threads = cs"
  proof (cases "image_height cam = 0")
    case True
    then show ?thesis by (simp add: c_div_def cs_def)
  next
    case False
    with h N show ?thesis by (simp add: c_div_def cs_def)
  qed
  have cs0: "0 \<le> cs" using N h by (simp add: cs_def pos_imp_zdiv_nonneg_iff)
  obtain m where m: "nat num_threads = Suc m" using N by (cases "nat num_threads") auto
  then have Nm: "num_threads = int m + 1" using N by linarith
  then have Nm': "num_threads - 1 = int m" by simp
  have "int m * cs \<le> num_threads * cs" using cs0 Nm by (simp add: mult_right_mono)
  also have "\<dots> \<le> image_height cam"
    unfolding cs_def using N pos_mod_sign[of num_threads "image_height cam"]
      mult_div_mod_eq[of num_threads "image_height cam"] by linarith
  finally have le: "int m * cs \<le> image_height cam" .
  have bnd: "band cam num_threads t =
      [t * cs..(if t = num_threads - 1 then image_height cam else t * cs + cs) - 1]" for t
    by (simp add: band_def cd Let_def)
  have front: "map (\<lambda>t. band cam num_threads (int t)) [0..<m] =
      map (\<lambda>t. [int t * cs..int t * cs + cs - 1]) [0..<m]"
    by (auto simp: bnd Nm')
  have last: "band cam num_threads (int m) = [int m * cs..image_height cam - 1]"
    by (simp add: bnd Nm')
  have "concat (map (\<lambda>t. band cam num_threads (int t)) [0..<nat num_threads]) =
      [0..int m * cs - 1] @ [int m * cs..image_height cam - 1]"
    unfolding m by (simp only: upt_Suc_append[OF le0] map_append concat_append list.map concat.simps
        append_Nil2 front last full_bands[OF cs0, of m])
  also have "\<dots> = [0..image_height cam - 1]"
    using cs0 le by (intro upto_append) simp_all
  finally show ?thesis .
qed

lemma rows_pixels_concat:
  "rows_pixels cam (concat yss) = concat (map (rows_pixels cam) yss)"
  by (induction yss) (simp_all add: rows_pixels_def)

lemma pending_spawn:
  assumes "0 < num_threads" "0 \<le> image_height cam"
  shows "pending (spawn cam num_threads gs) = rows_pixels cam [0..image_height cam - 1]"
proof -
  have "pending (spawn cam num_threads gs) =
      concat (map (rows_pixels cam) (map (\<lambda>t. band cam num_threads (int t)) [0..<nat num_threads]))"
    by (simp add: pending_def spawn_def comp_def)
  also have "\<dots> = rows_pixels cam (concat (map (\<lambda>t. band cam num_threads (int t)) [0..<nat num_threads]))"
    by (simp only: rows_pixels_concat)
  finally show ?thesis by (simp only: bands_concat[OF assms])
qed

lemma set_row_pixels: "set (row_pixels cam y) = {(x, y') . 0 \<le> x \<and> x < image_width cam \<and> y' = y}"
  by (auto simp: row_pixels_def)

lemma set_rows_pixels:
  "set (rows_pixels cam ys) = {(x, y). 0 \<le> x \<and> x < image_width cam \<and> y \<in> set ys}"
  by (induction ys) (auto simp: rows_pixels_def set_row_pixels)

lemma distinct_row_pixels: "distinct (row_pixels cam y)"
  by (simp add: row_pixels_def distinct_map inj_on_def)

lemma distinct_rows_pixels: "distinct ys \<Longrightarrow> distinct (rows_pixels cam ys)"
proof (induction ys)
  case Nil
  then show ?case by (simp add: rows_pixels_def)
next
  case (Cons y ys)
  have "rows_pixels cam (y # ys) = row_pixels cam y @ rows_pixels cam ys"
    by (simp add: rows_pixels_def)
  moreover have "set (row_pixels cam y) \<inter> set (rows_pixels cam ys) = {}"
    using Cons.prems by (auto simp: set_row_pixels set_rows_pixels)
  ultimately show ?case using Cons distinct_row_pixels by simp
qed

lemma all_pixels_in_image:
  "\<forall>p \<in> set (rows_pixels cam [0..image_height cam - 1]). in_image cam p"
  by (auto simp: set_rows_pixels in_image_def)

subsection \<open>The image of one column and two rows\<close>

lemma sqrt_16: "sqrt 16 = 4"
  by (rule real_sqrt_unique) simp_all

lemma sqrt_25: "sqrt 25 = 5"
  by (rule real_sqrt_unique) simp_all

lemma column_pixels:
  "rows_pixels (column_camera ch) [0..image_height (column_camera ch) - 1] = [(0, 0), (0, 1)]"
  by (simp add: rows_pixels_def row_pixels_def column_camera_def upto.simps)

lemma column_spawn: "spawn (column_camera ch) 2 [a, b] = [([(0, 0)], a), ([(0, 1)], b)]"
proof -
  have "[0..<nat 2] = [0, 1]" by (simp add: upt_rec)
  then show ?thesis
    by (simp add: spawn_def band_def c_div_def rows_pixels_def row_pixels_def column_camera_def
        upto.simps Let_def)
qed

lemma column_colour_0:
  "computePixelColor counting_random (column_camera ch) empty_scene 0 0 (n, g)
     = Some (Vec3 (3 / 4) (17 / 20) 1, n + 1, g + 2)"
  by (simp add: computePixelColor_def counting_random_def column_camera_def empty_scene_def
      background_def vec_eval Let_def sqrt_16 Hit_record_default_def)

lemma column_colour_1:
  "computePixelColor counting_random (column_camera ch) empty_scene 0 1 (n, g)
     = Some (Vec3 (9 / 10) (47 / 50) 1, n + 1, g + 2)"
  by (simp add: computePixelColor_def counting_random_def column_camera_def empty_scene_def
      background_def vec_eval Let_def sqrt_25 Hit_record_default_def)

lemma column_render_0:
  "render_pixel counting_random (column_camera ch) empty_scene (0, 0) (img, n, g) =
     map_option (\<lambda>img'. (img', n + 1, g + 2))
       (setPixel (column_camera ch) img 0 0 (Vec3 (3 / 4) (17 / 20) 1))"
  by (simp add: render_pixel_def column_colour_0 split: option.splits)

lemma column_render_1:
  "render_pixel counting_random (column_camera ch) empty_scene (0, 1) (img, n, g) =
     map_option (\<lambda>img'. (img', n + 1, g + 2))
       (setPixel (column_camera ch) img 0 1 (Vec3 (9 / 10) (47 / 50) 1))"
  by (simp add: render_pixel_def column_colour_1 split: option.splits)

lemma column_seeded:
  "seeded counting_random (column_camera ch) empty_scene row_seed [(0, 0), (0, 1)] 0"
  "seeded counting_random (column_camera ch) empty_scene row_seed [(0, 0)] 0"
  "seeded counting_random (column_camera ch) empty_scene row_seed [(0, 1)] 2"
  by (simp_all add: row_seed_def pixel_next_def column_colour_0 column_colour_1)

subsection \<open>The two renderers on the same samples\<close>

text \<open>
  C4 as stated fails for a camera with fewer than three channels, such as the one the default
  constructor builds: \<^verbatim>\<open>setPixel\<close> writes three bytes per pixel whatever \<^verbatim>\<open>image_channels\<close> is,
  so the bytes of neighbouring pixels overlap and the buffer keeps those of the pixel written
  last. On the image of one column and two rows with one channel, both pixels started with the
  generators of \<open>row_seed\<close> in both runs, the sequential renderer leaves the bytes
  \<open>192, 230, 240, 255\<close>; two threads of which the second gets the first turn leave
  \<open>192, 217, 255, 255\<close>.
\<close>

theorem renderPixelsParallel_one_channel_differs:
  "renderPixels counting_random (column_camera 1) empty_scene [0, 0, 0, 0, 0, 0] 0
     = Some ([192, 230, 240, 255, 0, 0], 2, 4) \<and>
   renderPixelsParallel counting_random (column_camera 1) empty_scene 2 [0, 2] [1, 0]
       [0, 0, 0, 0, 0, 0]
     = Some ([192, 217, 255, 255, 0, 0], 2, [2, 4]) \<and>
   seeded counting_random (column_camera 1) empty_scene row_seed
     (rows_pixels (column_camera 1) [0..image_height (column_camera 1) - 1]) 0 \<and>
   list_all (\<lambda>w. seeded counting_random (column_camera 1) empty_scene row_seed (fst w) (snd w))
     (spawn (column_camera 1) 2 [0, 2])"
proof -
  let ?cam = "column_camera 1"
  have s0: "setPixel ?cam [0, 0, 0, 0, 0, 0] 0 0 (Vec3 (3 / 4) (17 / 20) 1)
      = Some [192, 217, 255, 0, 0, 0]"
    by (simp add: column_camera_def pixel_eval)
  have s1: "setPixel ?cam [192, 217, 255, 0, 0, 0] 0 1 (Vec3 (9 / 10) (47 / 50) 1)
      = Some [192, 230, 240, 255, 0, 0]"
    by (simp add: column_camera_def pixel_eval)
  have p1: "setPixel ?cam [0, 0, 0, 0, 0, 0] 0 1 (Vec3 (9 / 10) (47 / 50) 1)
      = Some [0, 230, 240, 255, 0, 0]"
    by (simp add: column_camera_def pixel_eval)
  have p0: "setPixel ?cam [0, 230, 240, 255, 0, 0] 0 0 (Vec3 (3 / 4) (17 / 20) 1)
      = Some [192, 217, 255, 255, 0, 0]"
    by (simp add: column_camera_def pixel_eval)
  have nr: "n_rays ?cam = 0" by (simp add: column_camera_def)
  have a: "renderPixels counting_random ?cam empty_scene [0, 0, 0, 0, 0, 0] 0
     = Some ([192, 230, 240, 255, 0, 0], 2, 4)"
    by (simp add: renderPixels_def column_pixels column_render_0 column_render_1 s0 s1 nr)
  have b: "renderPixelsParallel counting_random ?cam empty_scene 2 [0, 2] [1, 0]
       [0, 0, 0, 0, 0, 0]
     = Some ([192, 217, 255, 255, 0, 0], 2, [2, 4])"
    by (simp add: renderPixelsParallel_def column_spawn column_render_0 column_render_1 p0 p1 nr)
  have c: "seeded counting_random ?cam empty_scene row_seed
     (rows_pixels ?cam [0..image_height ?cam - 1]) 0"
    by (simp only: column_pixels column_seeded)
  have d: "list_all (\<lambda>w. seeded counting_random ?cam empty_scene row_seed (fst w) (snd w))
     (spawn ?cam 2 [0, 2])"
    by (simp only: column_spawn list.pred_inject fst_conv snd_conv column_seeded simp_thms)
  show ?thesis
    by (intro conjI a b c d)
qed

text \<open>
  C4, amended. Let the camera have at least three channels and a height that is not negative,
  let the buffer have \<open>image_width \<sqdot> image_height \<sqdot> image_channels\<close> bytes (fewer than
  \<open>2\<^sup>3\<^sup>1\<close>), and let \<^verbatim>\<open>hardware_concurrency()\<close> be at least 1. If the sequential run and every
  thread of the parallel run start each pixel \<open>p\<close> with the same generator \<open>G p\<close>, then for the
  same scene and camera, and for every schedule of the threads, both renderers return and
  leave the same image buffer.
\<close>

theorem renderPixelsParallel_same_image:
  assumes ch: "3 \<le> image_channels cam"
    and h: "0 \<le> image_height cam"
    and len: "int (length img) = image_width cam * image_height cam * image_channels cam"
      "int (length img) < 2 ^ 31"
    and N: "0 < num_threads"
    and seq: "seeded L cam scene G (rows_pixels cam [0..image_height cam - 1]) g0"
    and par: "list_all (\<lambda>w. seeded L cam scene G (fst w) (snd w)) (spawn cam num_threads gs)"
  shows "\<exists>img' n gs' n' g'.
           renderPixelsParallel L cam scene num_threads gs schedule img = Some (img', n, gs') \<and>
           renderPixels L cam scene img g0 = Some (img', n', g')"
proof -
  let ?P = "rows_pixels cam [0..image_height cam - 1]"
  let ?ws = "spawn cam num_threads gs"
  have pw: "pending ?ws = ?P" by (rule pending_spawn[OF N h])
  have dP: "distinct ?P" by (simp add: distinct_rows_pixels)
  have iP: "\<forall>p \<in> set ?P. in_image cam p" by (rule all_pixels_in_image)
  have e: "\<forall>q \<in> {}. in_image cam q" by simp
  have sd: "\<forall>w \<in> set ?ws. seeded L cam scene G (fst w) (snd w)"
    using par by (simp add: list_all_iff)
  from run_pixels_painted[OF painted_empty e iP dP _ ch len seq, of "n_rays cam"]
  obtain img_s n_s g_s where
    s: "renderPixels L cam scene img g0 = Some (img_s, n_s, g_s)"
    and ps: "painted L cam scene G (set ?P) img img_s"
    by (auto simp: renderPixels_def)
  have iP': "\<forall>p \<in> set (pending ?ws). in_image cam p" "distinct (pending ?ws)"
    using iP dP pw by simp_all
  from run_schedule_painted[OF painted_empty e iP' _ ch len sd, of schedule "n_rays cam"]
  obtain img1 n1 ws1 T1 where
    r: "run_schedule L cam scene schedule (img, n_rays cam, ?ws) = Some (img1, n1, ws1)"
    and i1: "painted L cam scene G T1 img img1" "\<forall>q \<in> T1. in_image cam q"
    and d1: "distinct (pending ws1)" "set (pending ws1) \<inter> T1 = {}"
    and s1: "\<forall>w \<in> set ws1. seeded L cam scene G (fst w) (snd w)"
    and eq: "T1 \<union> set (pending ws1) = set ?P"
    using pw by auto
  have iw1: "\<forall>p \<in> set (pending ws1). in_image cam p"
    using eq iP by blast
  from drain_painted[OF i1 iw1 d1 ch len s1, of n1]
  obtain img_p n_p gs' where
    dr: "drain L cam scene ws1 (img1, n1) = Some (img_p, n_p, gs')"
    and pp: "painted L cam scene G (T1 \<union> set (pending ws1)) img img_p" by blast
  have rp: "renderPixelsParallel L cam scene num_threads gs schedule img = Some (img_p, n_p, gs')"
    using N r dr by (simp add: renderPixelsParallel_def)
  from pp eq have "painted L cam scene G (set ?P) img img_p" by simp
  from painted_unique[OF this ps iP ch] have "img_p = img_s" .
  with rp s show ?thesis by blast
qed

theorem renderPixelsParallel_same_image_witness:
  "renderPixelsParallel counting_random (column_camera 3) empty_scene 2 [0, 2] [1]
       [0, 0, 0, 0, 0, 0]
     = Some ([192, 217, 255, 230, 240, 255], 2, [2, 4]) \<and>
   map_option fst (renderPixels counting_random (column_camera 3) empty_scene [0, 0, 0, 0, 0, 0] 0)
     = Some [192, 217, 255, 230, 240, 255]"
proof -
  let ?cam = "column_camera 3"
  let ?img = "[0 :: byte, 0, 0, 0, 0, 0]"
  have p1: "setPixel ?cam ?img 0 1 (Vec3 (9 / 10) (47 / 50) 1) = Some [0, 0, 0, 230, 240, 255]"
    by (simp add: column_camera_def pixel_eval)
  have p0: "setPixel ?cam [0, 0, 0, 230, 240, 255] 0 0 (Vec3 (3 / 4) (17 / 20) 1)
      = Some [192, 217, 255, 230, 240, 255]"
    by (simp add: column_camera_def pixel_eval)
  have nr: "n_rays ?cam = 0" by (simp add: column_camera_def)
  have par: "renderPixelsParallel counting_random ?cam empty_scene 2 [0, 2] [1] ?img
     = Some ([192, 217, 255, 230, 240, 255], 2, [2, 4])"
    by (simp add: renderPixelsParallel_def column_spawn column_render_0 column_render_1 p0 p1 nr)
  have dims: "3 \<le> image_channels ?cam" "0 \<le> image_height ?cam"
    "int (length ?img) = image_width ?cam * image_height ?cam * image_channels ?cam"
    "int (length ?img) < 2 ^ 31" "(0 :: int) < 2"
    by (simp_all add: column_camera_def)
  have seeds:
    "seeded counting_random ?cam empty_scene row_seed (rows_pixels ?cam [0..image_height ?cam - 1]) 0"
    "list_all (\<lambda>w. seeded counting_random ?cam empty_scene row_seed (fst w) (snd w))
       (spawn ?cam 2 [0, 2])"
    by (simp_all only: column_pixels column_spawn list.pred_inject fst_conv snd_conv column_seeded
        simp_thms)
  from renderPixelsParallel_same_image[OF dims seeds, of "[1]"] par
  have "\<exists>n' g'. renderPixels counting_random ?cam empty_scene ?img 0
      = Some ([192, 217, 255, 230, 240, 255], n', g')" by simp
  then have "map_option fst (renderPixels counting_random ?cam empty_scene ?img 0)
      = Some [192, 217, 255, 230, 240, 255]" by auto
  with par show ?thesis by blast
qed

end
